theory Spec2Isabelle
  imports Complex_Main "HOL-Library.AList" "HOL-Library.Multiset"
begin

section \<open>Slot allocation and qualifier selection of \<open>analyze.py\<close>\<close>

text \<open>
  The development embeds \<open>calculate_slot_allocation\<close> and \<open>determine_qualifiers\<close> of
  \<open>src/analyze.py\<close>.

  \<^item> A roster row keeps the three columns the two functions read: \<open>age_group\<close>,
    \<open>finisher\<close> and \<open>age_group_rank\<close>; the row index is the position in the list.
  \<^item> The list \<open>valid_age_groups\<close>, which the source reads from \<open>selector.json\<close>, is a
    parameter.
  \<^item> A Python \<open>dict\<close> is an association list in insertion order: \<open>AList.update\<close>
    replaces the value of a present key in place and appends an absent key, as the
    assignment \<open>d[k] = v\<close> does.
  \<^item> \<open>d[k] += n\<close> on an absent key raises \<open>KeyError\<close>; a division by zero is an
    error value as well (the data-frame quotient would become infinite or NaN and the
    following \<open>int(...)\<close> would raise; the Python quotient raises at once).
  \<^item> The 64-bit floating-point quotients of the source are modelled by exact rational
    numbers.
  \<^item> The data-frame engine fixes neither the order in which \<open>group_by\<close> emits the
    groups nor the order of equal keys in \<open>sort\<close>. \<open>slot_df\<close> lists the groups in order
    of first occurrence; the general theorems hold for every list of rows that is a
    permutation of it (\<open>frame_of\<close>).
\<close>

subsection \<open>Data\<close>

datatype py_error = KeyError | ZeroDivisionError

record competitor =
  age_group :: string
  finisher :: bool
  age_group_rank :: int

record slot_row =
  sr_age_group :: string
  sr_gender :: string
  starters_count :: int
  finishers_count :: int

type_synonym alloc = "(string \<times> int) list"

subsection \<open>Aggregation (lines 134 to 153)\<close>

text \<open>The keys of a list in order of first occurrence.\<close>

definition first_seen :: "'a list \<Rightarrow> 'a list" where
  "first_seen xs = rev (remdups (rev xs))"

text \<open>\<open>str.slice(0, 1)\<close> of the label.\<close>

definition gender_of :: "string \<Rightarrow> string" where
  "gender_of ag = take 1 ag"

text \<open>\<open>group_by("age_group", "gender").agg(count)\<close>: one triple per group.\<close>

definition group_by_count :: "competitor list \<Rightarrow> (string \<times> string \<times> int) list" where
  "group_by_count df =
     map (\<lambda>ag. (ag, gender_of ag, int (length (filter (\<lambda>c. age_group c = ag) df))))
       (first_seen (map age_group df))"

text \<open>The left join on both key columns, with \<open>fill_null(0)\<close>.\<close>

definition left_join :: "(string \<times> string \<times> int) list \<Rightarrow> (string \<times> string \<times> int) list \<Rightarrow> slot_row list" where
  "left_join starters finishers =
     map (\<lambda>(ag, g, n).
            \<lparr>sr_age_group = ag, sr_gender = g, starters_count = n,
             finishers_count =
               (case map_of (map (\<lambda>(ag', g', m). ((ag', g'), m)) finishers) (ag, g) of
                  None \<Rightarrow> 0 | Some m \<Rightarrow> m)\<rparr>)
       starters"

definition slot_df :: "string list \<Rightarrow> competitor list \<Rightarrow> slot_row list" where
  "slot_df valid_age_groups data_frame =
     (let df = filter (\<lambda>c. age_group c \<in> set valid_age_groups) data_frame;
          finishers_df = filter finisher df
      in left_join (group_by_count df) (group_by_count finishers_df))"

text \<open>Any order in which the engine may emit the rows of the aggregated frame.\<close>

definition frame_of :: "string list \<Rightarrow> competitor list \<Rightarrow> slot_row list \<Rightarrow> bool" where
  "frame_of valid_age_groups data_frame rows \<longleftrightarrow>
     mset rows = mset (slot_df valid_age_groups data_frame)"

subsection \<open>Dictionary operations\<close>

text \<open>\<open>{ag: 0 for ag in valid_age_groups}\<close>\<close>

definition init_allocation :: "string list \<Rightarrow> alloc" where
  "init_allocation valid_age_groups = fold (\<lambda>ag d. AList.update ag 0 d) valid_age_groups []"

text \<open>\<open>d[k] += n\<close>\<close>

definition add_slots :: "alloc \<Rightarrow> string \<Rightarrow> int \<Rightarrow> py_error + alloc" where
  "add_slots d k n =
     (case map_of d k of None \<Rightarrow> Inl KeyError | Some v \<Rightarrow> Inr (AList.update k (v + n) d))"

text \<open>The value read by an observer of the final dictionary (0 for an absent key).\<close>

definition slots :: "alloc \<Rightarrow> string \<Rightarrow> int" where
  "slots d k = (case map_of d k of None \<Rightarrow> 0 | Some v \<Rightarrow> v)"

subsection \<open>Minimum guarantee (lines 160 to 172)\<close>

fun min_guarantee :: "slot_row list \<Rightarrow> alloc \<times> int \<times> int \<Rightarrow> alloc \<times> int \<times> int" where
  "min_guarantee [] s = s"
| "min_guarantee (row # rows) (d, male_slots_total, female_slots_total) =
     (if starters_count row = 0 then min_guarantee rows (d, male_slots_total, female_slots_total)
      else min_guarantee rows
             (AList.update (sr_age_group row) 1 d,
              if sr_gender row = ''M'' then male_slots_total - 1 else male_slots_total,
              if sr_gender row = ''M'' then female_slots_total else female_slots_total - 1))"

definition male_groups :: "slot_row list \<Rightarrow> slot_row list" where
  "male_groups rows = filter (\<lambda>r. sr_gender r = ''M'' \<and> starters_count r > 0) rows"

definition female_groups :: "slot_row list \<Rightarrow> slot_row list" where
  "female_groups rows = filter (\<lambda>r. sr_gender r = ''F'' \<and> starters_count r > 0) rows"

subsection \<open>Proportional shares and largest remainders (lines 183 to 239)\<close>

text \<open>Python's \<open>int(x)\<close> on a float truncates towards zero.\<close>

definition py_int :: "rat \<Rightarrow> int" where
  "py_int x = (if 0 \<le> x then \<lfloor>x\<rfloor> else \<lceil>x\<rceil>)"

definition checked_div :: "rat \<Rightarrow> rat \<Rightarrow> py_error + rat" where
  "checked_div a b = (if b = 0 then Inl ZeroDivisionError else Inr (a / b))"

text \<open>The column \<open>prop_slots\<close>, as pairs of label and share.\<close>

fun prop_slots :: "slot_row list \<Rightarrow> int \<Rightarrow> int \<Rightarrow> py_error + (string \<times> rat) list" where
  "prop_slots [] total_starters budget = Inr []"
| "prop_slots (r # rs) total_starters budget =
     (case checked_div (of_int (starters_count r)) (of_int total_starters) of
        Inl e \<Rightarrow> Inl e
      | Inr q \<Rightarrow>
          (case prop_slots rs total_starters budget of
             Inl e \<Rightarrow> Inl e
           | Inr ps \<Rightarrow> Inr ((sr_age_group r, q * of_int budget) # ps)))"

text \<open>The first loop: the truncated share goes to each group and leaves the budget.\<close>

fun add_floors :: "(string \<times> rat) list \<Rightarrow> alloc \<Rightarrow> int \<Rightarrow> py_error + (alloc \<times> int)" where
  "add_floors [] d budget = Inr (d, budget)"
| "add_floors ((ag, p) # ps) d budget =
     (case add_slots d ag (py_int p) of
        Inl e \<Rightarrow> Inl e
      | Inr d' \<Rightarrow> add_floors ps d' (budget - py_int p))"

text \<open>\<open>xs.sort(key=lambda x: x[1], reverse=True)\<close>: descending, equal keys keep their order.\<close>

definition sort_desc :: "(string \<times> rat) list \<Rightarrow> (string \<times> rat) list" where
  "sort_desc xs = sort_key (\<lambda>x. - snd x) xs"

text \<open>\<open>for i in range(n): if i < len(ranked): d[ranked[i][0]] += 1\<close>, over the indices.\<close>

fun award :: "(string \<times> rat) list \<Rightarrow> nat list \<Rightarrow> alloc \<Rightarrow> py_error + alloc" where
  "award ranked [] d = Inr d"
| "award ranked (i # is) d =
     (if i < length ranked then
        (case add_slots d (fst (ranked ! i)) 1 of
           Inl e \<Rightarrow> Inl e
         | Inr d' \<Rightarrow> award ranked is d')
      else award ranked is d)"

definition decimal_parts :: "(string \<times> rat) list \<Rightarrow> (string \<times> rat) list" where
  "decimal_parts props = map (\<lambda>(ag, p). (ag, p - of_int (py_int p))) props"

text \<open>One of the two blocks (lines 183 to 209 and 211 to 239), which differ in names only.\<close>

definition apportion :: "slot_row list \<Rightarrow> alloc \<Rightarrow> int \<Rightarrow> py_error + (alloc \<times> int)" where
  "apportion groups d slots_total =
     (if slots_total > 0 \<and> groups \<noteq> [] then
        (let total_starters = sum_list (map starters_count groups) in
         if total_starters > 0 then
           (case prop_slots groups total_starters slots_total of
              Inl e \<Rightarrow> Inl e
            | Inr props \<Rightarrow>
                (case add_floors props d slots_total of
                   Inl e \<Rightarrow> Inl e
                 | Inr (d1, rest) \<Rightarrow>
                     if rest > 0 then
                       (case award (sort_desc (decimal_parts props)) [0..<nat rest] d1 of
                          Inl e \<Rightarrow> Inl e
                        | Inr d2 \<Rightarrow> Inr (d2, rest))
                     else Inr (d1, rest)))
         else Inr (d, slots_total))
      else Inr (d, slots_total))"

subsection \<open>Zero-finisher reallocation (lines 241 to 272)\<close>

text \<open>\<open>starters_count / max(1, slot_allocation.get(tgroup, 1))\<close> for each target.\<close>

fun ratios :: "slot_row list \<Rightarrow> alloc \<Rightarrow> py_error + (string \<times> rat) list" where
  "ratios [] d = Inr []"
| "ratios (trow # trows) d =
     (case checked_div (of_int (starters_count trow))
             (of_int (max 1 (case map_of d (sr_age_group trow) of None \<Rightarrow> 1 | Some v \<Rightarrow> v))) of
        Inl e \<Rightarrow> Inl e
      | Inr ratio \<Rightarrow>
          (case ratios trows d of
             Inl e \<Rightarrow> Inl e
           | Inr rs \<Rightarrow> Inr ((sr_age_group trow, ratio) # rs)))"

definition target_groups :: "slot_row list \<Rightarrow> slot_row list \<Rightarrow> slot_row \<Rightarrow> slot_row list" where
  "target_groups mg fg row =
     filter (\<lambda>r. finishers_count r > 0) (if sr_gender row = ''M'' then mg else fg)"

definition withdrawn :: "alloc \<Rightarrow> slot_row \<Rightarrow> bool" where
  "withdrawn d row \<longleftrightarrow>
     starters_count row > 0 \<and> finishers_count row = 0 \<and>
     (case map_of d (sr_age_group row) of None \<Rightarrow> False | Some v \<Rightarrow> v > 0)"

text \<open>The body of the loop for one row that satisfies the condition.\<close>

definition reallocate_row :: "slot_row list \<Rightarrow> slot_row list \<Rightarrow> slot_row \<Rightarrow> alloc \<Rightarrow> py_error + alloc" where
  "reallocate_row mg fg row d =
     (let reallocate_slots = slots d (sr_age_group row);
          d0 = AList.update (sr_age_group row) 0 d;
          targets = target_groups mg fg row
      in if targets \<noteq> [] then
           (case ratios targets d0 of
              Inl e \<Rightarrow> Inl e
            | Inr rs \<Rightarrow> award (sort_desc rs) [0..<nat reallocate_slots] d0)
         else Inr d0)"

fun reallocate :: "slot_row list \<Rightarrow> slot_row list \<Rightarrow> slot_row list \<Rightarrow> alloc \<Rightarrow> py_error + alloc" where
  "reallocate mg fg [] d = Inr d"
| "reallocate mg fg (row # rows) d =
     (if withdrawn d row then
        (case reallocate_row mg fg row d of
           Inl e \<Rightarrow> Inl e
         | Inr d' \<Rightarrow> reallocate mg fg rows d')
      else reallocate mg fg rows d)"

subsection \<open>The allocator (lines 155 to 278)\<close>

text \<open>Lines 274 to 276: a label of the list that is no key yet is entered with 0.\<close>

definition fill_missing :: "string list \<Rightarrow> alloc \<Rightarrow> alloc" where
  "fill_missing valid_age_groups d =
     fold (\<lambda>ag d. if map_of d ag = None then AList.update ag 0 d else d) valid_age_groups d"

text \<open>The dictionary and the two budgets when line 239 has run.\<close>

definition before_reallocation :: "string list \<Rightarrow> slot_row list \<Rightarrow> int \<Rightarrow> int \<Rightarrow> py_error + alloc" where
  "before_reallocation valid_age_groups rows mens_slots womens_slots =
     (case min_guarantee rows (init_allocation valid_age_groups, mens_slots, womens_slots) of
        (d0, male_slots_total, female_slots_total) \<Rightarrow>
          (case apportion (male_groups rows) d0 male_slots_total of
             Inl e \<Rightarrow> Inl e
           | Inr (d1, _) \<Rightarrow>
               (case apportion (female_groups rows) d1 female_slots_total of
                  Inl e \<Rightarrow> Inl e
                | Inr (d2, _) \<Rightarrow> Inr d2)))"

definition allocate_rows :: "string list \<Rightarrow> slot_row list \<Rightarrow> int \<Rightarrow> int \<Rightarrow> py_error + alloc" where
  "allocate_rows valid_age_groups rows mens_slots womens_slots =
     (case before_reallocation valid_age_groups rows mens_slots womens_slots of
        Inl e \<Rightarrow> Inl e
      | Inr d2 \<Rightarrow>
          (case reallocate (male_groups rows) (female_groups rows) rows d2 of
             Inl e \<Rightarrow> Inl e
           | Inr d3 \<Rightarrow> Inr (fill_missing valid_age_groups d3)))"

definition calculate_slot_allocation :: "string list \<Rightarrow> competitor list \<Rightarrow> int \<Rightarrow> int \<Rightarrow> py_error + alloc" where
  "calculate_slot_allocation valid_age_groups data_frame mens_slots womens_slots =
     allocate_rows valid_age_groups (slot_df valid_age_groups data_frame) mens_slots womens_slots"

subsection \<open>The selector (lines 281 to 308)\<close>

text \<open>\<open>with_row_index\<close>\<close>

definition with_row_index :: "competitor list \<Rightarrow> (nat \<times> competitor) list" where
  "with_row_index df = zip [0..<length df] df"

definition group_finishers :: "competitor list \<Rightarrow> string \<Rightarrow> (nat \<times> competitor) list" where
  "group_finishers df ag =
     filter (\<lambda>(i, c). age_group c = ag \<and> finisher c) (with_row_index df)"

definition top_finishers :: "competitor list \<Rightarrow> string \<Rightarrow> int \<Rightarrow> nat list" where
  "top_finishers df ag n =
     (if n \<le> 0 then []
      else if group_finishers df ag = [] then []
      else map fst (take (nat n) (sort_key (\<lambda>(i, c). age_group_rank c) (group_finishers df ag))))"

definition determine_qualifiers :: "competitor list \<Rightarrow> alloc \<Rightarrow> nat list" where
  "determine_qualifiers df slot_allocation =
     concat (map (\<lambda>(ag, n). top_finishers df ag n) slot_allocation)"

subsection \<open>Auxiliary notions for the statements\<close>

text \<open>The column \<open>prop_slots\<close> in closed form: what \<open>prop_slots\<close> returns when the total is not 0.\<close>

definition shares :: "slot_row list \<Rightarrow> int \<Rightarrow> int \<Rightarrow> (string \<times> rat) list" where
  "shares gs t b = map (\<lambda>r. (sr_age_group r, of_int (starters_count r) / of_int t * of_int b)) gs"

text \<open>The number of roster rows of a category, and of those that finished.\<close>

definition starters_of :: "competitor list \<Rightarrow> string \<Rightarrow> int" where
  "starters_of df ag = int (length (filter (\<lambda>c. age_group c = ag) df))"

definition finishers_of :: "competitor list \<Rightarrow> string \<Rightarrow> int" where
  "finishers_of df ag = int (length (filter (\<lambda>c. age_group c = ag \<and> finisher c) df))"

text \<open>What every emission order of the aggregated frame satisfies: one row for each ground-truth label that occurs in the roster, with its gender and its two counts.\<close>

definition wf_rows :: "string list \<Rightarrow> competitor list \<Rightarrow> slot_row list \<Rightarrow> bool" where
  "wf_rows valid df rows \<longleftrightarrow>
     distinct (map sr_age_group rows) \<and>
     sr_age_group ` set rows = set valid \<inter> age_group ` set df \<and>
     (\<forall>r \<in> set rows.
        sr_gender r = gender_of (sr_age_group r) \<and>
        starters_count r = starters_of df (sr_age_group r) \<and>
        finishers_count r = finishers_of df (sr_age_group r))"

text \<open>The slots that a dictionary gives to the labels of a list of rows.\<close>

definition total_of :: "alloc \<Rightarrow> slot_row list \<Rightarrow> int" where
  "total_of d gs = sum_list (map (\<lambda>g. slots d (sr_age_group g)) gs)"

text \<open>What one apportionment adds to a label: its truncated share and one more slot when the label is among the first \<open>rest\<close> of the largest-remainder ranking.\<close>

definition extra_slots :: "slot_row list \<Rightarrow> int \<Rightarrow> int \<Rightarrow> string \<Rightarrow> int" where
  "extra_slots gs b rest k =
     (let props = shares gs (sum_list (map starters_count gs)) b
      in sum_list (map (\<lambda>x. py_int (snd x)) (filter (\<lambda>x. fst x = k) props)) +
         int (count_list (take (nat rest) (map fst (sort_desc (decimal_parts props)))) k))"

text \<open>The list \<open>ratios\<close> in closed form.\<close>

definition target_ratios :: "slot_row list \<Rightarrow> alloc \<Rightarrow> (string \<times> rat) list" where
  "target_ratios ts d =
     map (\<lambda>t. (sr_age_group t,
                of_int (starters_count t) /
                of_int (max 1 (case map_of d (sr_age_group t) of None \<Rightarrow> 1 | Some v \<Rightarrow> v)))) ts"

text \<open>The labels of the targets of one reallocation step in ranking order, computed after the row's own allocation has been set to 0.\<close>

definition ranked_targets :: "slot_row list \<Rightarrow> slot_row list \<Rightarrow> slot_row \<Rightarrow> alloc \<Rightarrow> string list" where
  "ranked_targets mg fg row d =
     map fst (sort_desc (target_ratios (target_groups mg fg row)
                           (AList.update (sr_age_group row) 0 d)))"

text \<open>The labels that can receive a slot in the reallocation loop: groups with a finisher.\<close>

definition target_keys :: "slot_row list \<Rightarrow> slot_row list \<Rightarrow> string set" where
  "target_keys mg fg = sr_age_group ` {t \<in> set mg \<union> set fg. 0 < finishers_count t}"

text \<open>The labels of the rows with a starter and no finisher.\<close>

definition zero_keys :: "slot_row list \<Rightarrow> string set" where
  "zero_keys rows = sr_age_group ` {r \<in> set rows. 0 < starters_count r \<and> finishers_count r = 0}"

text \<open>The labels that the minimum-guarantee loop sets to 1.\<close>

definition started_keys :: "slot_row list \<Rightarrow> string set" where
  "started_keys rows = sr_age_group ` {r \<in> set rows. starters_count r \<noteq> 0}"


text \<open>The rows whose label starts with neither M nor F.\<close>

definition other_rows :: "slot_row list \<Rightarrow> slot_row list" where
  "other_rows rows = filter (\<lambda>r. sr_gender r \<noteq> ''M'' \<and> sr_gender r \<noteq> ''F'') rows"

text \<open>The sort key of the selector, and the finishers of a category in sorted order.\<close>

definition rank_key :: "nat \<times> competitor \<Rightarrow> int" where
  "rank_key = (\<lambda>(i, c). age_group_rank c)"

definition ranked_finishers :: "competitor list \<Rightarrow> string \<Rightarrow> (nat \<times> competitor) list" where
  "ranked_finishers df ag = sort_key (\<lambda>(i, c). age_group_rank c) (group_finishers df ag)"

text \<open>Roster rows of one category, one for each given rank.\<close>

definition competitors :: "string \<Rightarrow> bool \<Rightarrow> int list \<Rightarrow> competitor list" where
  "competitors ag fin ranks =
     map (\<lambda>r. \<lparr>age_group = ag, finisher = fin, age_group_rank = r\<rparr>) ranks"

text \<open>The scenario of section 8 of the specification: ten starters with eight finishers in M35-39, five starters without a finisher in M40-44.\<close>

definition example_roster :: "competitor list" where
  "example_roster =
     competitors ''M35-39'' True [8, 7, 6, 5, 4, 3, 2, 1] @
     competitors ''M35-39'' False [0, 0] @
     competitors ''M40-44'' False [0, 0, 0, 0, 0]"

definition example_valid :: "string list" where
  "example_valid = [''M35-39'', ''M40-44'']"

text \<open>A row of the aggregated frame from its label and its two counts.\<close>

definition slot_row_of :: "string \<Rightarrow> int \<Rightarrow> int \<Rightarrow> slot_row" where
  "slot_row_of ag s f =
     \<lparr>sr_age_group = ag, sr_gender = gender_of ag, starters_count = s, finishers_count = f\<rparr>"









section \<open>Lemmas\<close>

subsection \<open>Dictionary updates and the loops\<close>

lemma map_fst_update_present:
  "k \<in> fst ` set d \<Longrightarrow> map fst (AList.update k v d) = map fst d"
  by (induction d) auto

lemma slots_update: "slots (AList.update k v d) k' = (if k' = k then v else slots d k')"
  by (simp add: slots_def update_conv')

lemma map_of_None_iff: "map_of d k = None \<longleftrightarrow> k \<notin> fst ` set d"
  by (simp add: map_of_eq_None_iff)

lemma add_slots_Inr:
  "k \<in> fst ` set d \<Longrightarrow> add_slots d k n = Inr (AList.update k (slots d k + n) d)"
  by (cases "map_of d k") (auto simp: add_slots_def slots_def map_of_eq_None_iff)

lemma keys_eq_set: "map fst d' = map fst d \<Longrightarrow> fst ` set d' = fst ` set d"
  by (metis set_map)

lemma award_upt:
  "fst ` set ranked \<subseteq> fst ` set d \<Longrightarrow>
   \<exists>d'. award ranked [i..<n] d = Inr d' \<and> map fst d' = map fst d \<and>
        (\<forall>k. slots d' k = slots d k + int (count_list (map fst (drop i (take n ranked))) k))"
proof (induction "n - i" arbitrary: i d)
  case 0
  then show ?case by simp
next
  case (Suc m)
  then have lt: "i < n" and m: "m = n - Suc i" by auto
  have upt: "[i..<n] = i # [Suc i..<n]" using lt by (simp add: upt_conv_Cons)
  show ?case
  proof (cases "i < length ranked")
    case True
    let ?k = "fst (ranked ! i)"
    have kin: "?k \<in> fst ` set d" using True Suc.prems by (metis image_eqI nth_mem subsetD)
    let ?d1 = "AList.update ?k (slots d ?k + 1) d"
    have a: "add_slots d ?k 1 = Inr ?d1" using kin by (rule add_slots_Inr)
    have keys1: "map fst ?d1 = map fst d" using kin by (rule map_fst_update_present)
    then have sub1: "fst ` set ranked \<subseteq> fst ` set ?d1" using Suc.prems keys_eq_set by metis
    from Suc.hyps(1)[OF m sub1] obtain d' where
      d': "award ranked [Suc i..<n] ?d1 = Inr d'" "map fst d' = map fst ?d1"
        "\<forall>k. slots d' k = slots ?d1 k + int (count_list (map fst (drop (Suc i) (take n ranked))) k)"
      by blast
    have dr: "drop i (take n ranked) = ranked ! i # drop (Suc i) (take n ranked)"
      using True lt by (metis Cons_nth_drop_Suc length_take min_less_iff_conj nth_take)
    have "award ranked [i..<n] d = Inr d'" using upt True a d'(1) by simp
    moreover have "map fst d' = map fst d" using d'(2) keys1 by simp
    moreover have "\<forall>k. slots d' k = slots d k + int (count_list (map fst (drop i (take n ranked))) k)"
      using d'(3) dr by (simp add: slots_update)
    ultimately show ?thesis by blast
  next
    case False
    from Suc.hyps(1)[OF m Suc.prems] obtain d' where
      d': "award ranked [Suc i..<n] d = Inr d'" "map fst d' = map fst d"
        "\<forall>k. slots d' k = slots d k + int (count_list (map fst (drop (Suc i) (take n ranked))) k)"
      by blast
    have "drop i (take n ranked) = []" "drop (Suc i) (take n ranked) = []" using False by auto
    then show ?thesis using upt False d' by simp
  qed
qed

lemma add_floors_ok:
  "fst ` set props \<subseteq> fst ` set d \<Longrightarrow>
   \<exists>d'. add_floors props d b = Inr (d', b - sum_list (map (\<lambda>x. py_int (snd x)) props)) \<and>
        map fst d' = map fst d \<and>
        (\<forall>k. slots d' k =
              slots d k + sum_list (map (\<lambda>x. py_int (snd x)) (filter (\<lambda>x. fst x = k) props)))"
proof (induction props arbitrary: d b)
  case Nil
  then show ?case by simp
next
  case (Cons x props)
  obtain ag p where x: "x = (ag, p)" by (cases x)
  have kin: "ag \<in> fst ` set d" using Cons.prems x by auto
  let ?d1 = "AList.update ag (slots d ag + py_int p) d"
  have a: "add_slots d ag (py_int p) = Inr ?d1" using kin by (rule add_slots_Inr)
  have keys1: "map fst ?d1 = map fst d" using kin by (rule map_fst_update_present)
  then have sub1: "fst ` set props \<subseteq> fst ` set ?d1" using Cons.prems keys_eq_set
    by (metis (no_types, lifting) dual_order.trans set_subset_Cons image_mono)
  from Cons.IH[OF sub1, of "b - py_int p"] obtain d' where
    d': "add_floors props ?d1 (b - py_int p)
           = Inr (d', b - py_int p - sum_list (map (\<lambda>x. py_int (snd x)) props))"
      "map fst d' = map fst ?d1"
      "\<forall>k. slots d' k =
          slots ?d1 k + sum_list (map (\<lambda>x. py_int (snd x)) (filter (\<lambda>x. fst x = k) props))"
    by blast
  have "add_floors (x # props) d b = Inr (d', b - sum_list (map (\<lambda>x. py_int (snd x)) (x # props)))"
    using x a d'(1) by (simp add: algebra_simps)
  moreover have "map fst d' = map fst d" using d'(2) keys1 by simp
  moreover have "\<forall>k. slots d' k =
      slots d k + sum_list (map (\<lambda>x. py_int (snd x)) (filter (\<lambda>x. fst x = k) (x # props)))"
    using d'(3) x by (simp add: slots_update)
  ultimately show ?case by blast
qed

lemma prop_slots_ok: "t \<noteq> 0 \<Longrightarrow> prop_slots gs t b = Inr (shares gs t b)"
  by (induction gs) (auto simp: checked_div_def shares_def)

lemma min_guarantee_ok:
  "\<exists>d' . min_guarantee rows (d, m, f) =
      (d', m - int (length (filter (\<lambda>r. starters_count r \<noteq> 0 \<and> sr_gender r = ''M'') rows)),
           f - int (length (filter (\<lambda>r. starters_count r \<noteq> 0 \<and> sr_gender r \<noteq> ''M'') rows))) \<and>
      fst ` set d' = fst ` set d \<union> sr_age_group ` {r \<in> set rows. starters_count r \<noteq> 0} \<and>
      (sr_age_group ` set rows \<subseteq> fst ` set d \<longrightarrow> map fst d' = map fst d) \<and>
      (\<forall>k. slots d' k = (if k \<in> sr_age_group ` {r \<in> set rows. starters_count r \<noteq> 0} then 1 else slots d k))"
proof (induction rows arbitrary: d m f)
  case Nil
  then show ?case by simp
next
  case (Cons row rows)
  show ?case
  proof (cases "starters_count row = 0")
    case True
    from Cons.IH[of d m f] obtain d' where
      "min_guarantee rows (d, m, f) =
      (d', m - int (length (filter (\<lambda>r. starters_count r \<noteq> 0 \<and> sr_gender r = ''M'') rows)),
           f - int (length (filter (\<lambda>r. starters_count r \<noteq> 0 \<and> sr_gender r \<noteq> ''M'') rows)))"
      "fst ` set d' = fst ` set d \<union> sr_age_group ` {r \<in> set rows. starters_count r \<noteq> 0}"
      "sr_age_group ` set rows \<subseteq> fst ` set d \<longrightarrow> map fst d' = map fst d"
      "\<forall>k. slots d' k = (if k \<in> sr_age_group ` {r \<in> set rows. starters_count r \<noteq> 0} then 1 else slots d k)"
      by blast
    then show ?thesis using True by (intro exI[of _ d']) auto
  next
    case False
    let ?d1 = "AList.update (sr_age_group row) 1 d"
    let ?m1 = "if sr_gender row = ''M'' then m - 1 else m"
    let ?f1 = "if sr_gender row = ''M'' then f else f - 1"
    from Cons.IH[of ?d1 ?m1 ?f1] obtain d' where d':
      "min_guarantee rows (?d1, ?m1, ?f1) =
      (d', ?m1 - int (length (filter (\<lambda>r. starters_count r \<noteq> 0 \<and> sr_gender r = ''M'') rows)),
           ?f1 - int (length (filter (\<lambda>r. starters_count r \<noteq> 0 \<and> sr_gender r \<noteq> ''M'') rows)))"
      "fst ` set d' = fst ` set ?d1 \<union> sr_age_group ` {r \<in> set rows. starters_count r \<noteq> 0}"
      "sr_age_group ` set rows \<subseteq> fst ` set ?d1 \<longrightarrow> map fst d' = map fst ?d1"
      "\<forall>k. slots d' k = (if k \<in> sr_age_group ` {r \<in> set rows. starters_count r \<noteq> 0} then 1 else slots ?d1 k)"
      by blast
    have 1: "min_guarantee (row # rows) (d, m, f) =
      (d', m - int (length (filter (\<lambda>r. starters_count r \<noteq> 0 \<and> sr_gender r = ''M'') (row # rows))),
           f - int (length (filter (\<lambda>r. starters_count r \<noteq> 0 \<and> sr_gender r \<noteq> ''M'') (row # rows))))"
      using False d'(1) by simp
    have 2: "fst ` set d' = fst ` set d \<union> sr_age_group ` {r \<in> set (row # rows). starters_count r \<noteq> 0}"
      using False d'(2) by (auto simp: dom_update)
    have 3: "sr_age_group ` set (row # rows) \<subseteq> fst ` set d \<longrightarrow> map fst d' = map fst d"
    proof
      assume sub: "sr_age_group ` set (row # rows) \<subseteq> fst ` set d"
      then have kin: "sr_age_group row \<in> fst ` set d" by simp
      have k1: "map fst ?d1 = map fst d" using kin by (rule map_fst_update_present)
      then have "fst ` set ?d1 = fst ` set d" by (rule keys_eq_set)
      then have "sr_age_group ` set rows \<subseteq> fst ` set ?d1" using sub by simp
      then show "map fst d' = map fst d" using d'(3) k1 by simp
    qed
    have 4: "\<forall>k. slots d' k = (if k \<in> sr_age_group ` {r \<in> set (row # rows). starters_count r \<noteq> 0} then 1 else slots d k)"
      using False d'(4) by (auto simp: slots_update)
    show ?thesis using 1 2 3 4 by blast
  qed
qed

subsection \<open>The aggregated frame\<close>

lemma set_first_seen: "set (first_seen xs) = set xs"
  by (simp add: first_seen_def)

lemma distinct_first_seen: "distinct (first_seen xs)"
  by (simp add: first_seen_def)

lemma map_of_keyed:
  "map_of (map (\<lambda>(a, g, m). ((a, g), m)) (map (\<lambda>a. (a, G a, C a)) ks)) (a0, G a0)
     = (if a0 \<in> set ks then Some (C a0) else None)"
  by (induction ks) auto

lemma filter_count_valid:
  "ag \<in> V \<Longrightarrow> filter (\<lambda>c. age_group c = ag) (filter (\<lambda>c. age_group c \<in> V) df)
     = filter (\<lambda>c. age_group c = ag) df"
  by (induction df) auto

lemma filter_count_fin:
  "ag \<in> V \<Longrightarrow>
   filter (\<lambda>c. age_group c = ag) (filter finisher (filter (\<lambda>c. age_group c \<in> V) df))
     = filter (\<lambda>c. age_group c = ag \<and> finisher c) df"
  by (induction df) auto

lemma slot_df_eq:
  "slot_df valid df =
     map (\<lambda>ag. \<lparr>sr_age_group = ag, sr_gender = gender_of ag,
                 starters_count = starters_of df ag, finishers_count = finishers_of df ag\<rparr>)
       (first_seen (map age_group (filter (\<lambda>c. age_group c \<in> set valid) df)))"
proof -
  let ?df = "filter (\<lambda>c. age_group c \<in> set valid) df"
  let ?fdf = "filter finisher ?df"
  let ?ks = "first_seen (map age_group ?df)"
  have fin: "(case map_of (map (\<lambda>(a, g, m). ((a, g), m)) (group_by_count ?fdf)) (ag, gender_of ag) of
               None \<Rightarrow> 0 | Some m \<Rightarrow> m) = finishers_of df ag" if "ag \<in> set ?ks" for ag
  proof -
    have v: "ag \<in> set valid" using that by (auto simp: set_first_seen)
    have len: "length (filter (\<lambda>c. age_group c = ag) ?fdf) = length (filter (\<lambda>c. age_group c = ag \<and> finisher c) df)"
      by (simp only: filter_count_fin[OF v])
    have lk: "map_of (map (\<lambda>(a, g, m). ((a, g), m)) (group_by_count ?fdf)) (ag, gender_of ag)
        = (if ag \<in> set (first_seen (map age_group ?fdf))
           then Some (int (length (filter (\<lambda>c. age_group c = ag) ?fdf))) else None)"
      unfolding group_by_count_def by (rule map_of_keyed)
    show ?thesis
    proof (cases "ag \<in> set (first_seen (map age_group ?fdf))")
      case True
      then show ?thesis
        by (simp only: lk len finishers_of_def if_True option.case)
    next
      case False
      then have "filter (\<lambda>c. age_group c = ag) ?fdf = []"
        by (auto simp: set_first_seen filter_empty_conv)
      then have "length (filter (\<lambda>c. age_group c = ag \<and> finisher c) df) = 0"
        using len by simp
      then show ?thesis
        using False by (simp only: lk finishers_of_def if_False option.case)
    qed
  qed
  have st: "int (length (filter (\<lambda>c. age_group c = ag) ?df)) = starters_of df ag" if "ag \<in> set ?ks" for ag
  proof -
    have v: "ag \<in> set valid" using that by (auto simp: set_first_seen)
    show ?thesis by (simp only: filter_count_valid[OF v] starters_of_def)
  qed
  have A: "slot_df valid df =
      left_join (map (\<lambda>ag. (ag, gender_of ag, int (length (filter (\<lambda>c. age_group c = ag) ?df)))) ?ks)
        (group_by_count ?fdf)"
    by (simp only: slot_df_def Let_def group_by_count_def[of ?df])
  have B: "left_join (map (\<lambda>ag. (ag, gender_of ag, int (length (filter (\<lambda>c. age_group c = ag) ?df)))) ?ks)
        (group_by_count ?fdf) =
      map (\<lambda>ag. \<lparr>sr_age_group = ag, sr_gender = gender_of ag,
                 starters_count = int (length (filter (\<lambda>c. age_group c = ag) ?df)),
                 finishers_count =
                   (case map_of (map (\<lambda>(a, g, m). ((a, g), m)) (group_by_count ?fdf)) (ag, gender_of ag) of
                      None \<Rightarrow> 0 | Some m \<Rightarrow> m)\<rparr>) ?ks"
    by (simp only: left_join_def map_map comp_def prod.case)
  show ?thesis
    unfolding A B by (rule map_cong[OF refl]) (simp only: fin st)
qed

lemma wf_slot_df: "wf_rows valid df (slot_df valid df)"
proof -
  let ?ks = "first_seen (map age_group (filter (\<lambda>c. age_group c \<in> set valid) df))"
  have k: "map sr_age_group (slot_df valid df) = ?ks"
    unfolding slot_df_eq by (simp add: comp_def)
  have 1: "distinct (map sr_age_group (slot_df valid df))"
    unfolding k by (rule distinct_first_seen)
  have "set (map sr_age_group (slot_df valid df)) = set valid \<inter> age_group ` set df"
    unfolding k set_first_seen by auto
  then have 2: "sr_age_group ` set (slot_df valid df) = set valid \<inter> age_group ` set df"
    by simp
  have 3: "\<forall>r \<in> set (slot_df valid df).
        sr_gender r = gender_of (sr_age_group r) \<and>
        starters_count r = starters_of df (sr_age_group r) \<and>
        finishers_count r = finishers_of df (sr_age_group r)"
    unfolding slot_df_eq by auto
  show ?thesis unfolding wf_rows_def using 1 2 3 by blast
qed

lemma frame_of_wf:
  assumes "frame_of valid df rows"
  shows "wf_rows valid df rows"
proof -
  have m: "mset rows = mset (slot_df valid df)" using assms by (simp add: frame_of_def)
  then have s: "set rows = set (slot_df valid df)" by (rule mset_eq_setD)
  have "mset (map sr_age_group rows) = mset (map sr_age_group (slot_df valid df))"
    using m by (metis mset_map)
  then have "distinct (map sr_age_group rows) = distinct (map sr_age_group (slot_df valid df))"
    by (rule mset_eq_imp_distinct_iff)
  then show ?thesis using wf_slot_df[of valid df] s unfolding wf_rows_def by simp
qed

lemma starters_of_pos_iff: "0 < starters_of df ag \<longleftrightarrow> ag \<in> age_group ` set df"
  by (auto simp: starters_of_def filter_empty_conv)

lemma wf_rows_starters_pos: "wf_rows valid df rows \<Longrightarrow> r \<in> set rows \<Longrightarrow> 0 < starters_count r"
  unfolding wf_rows_def using starters_of_pos_iff by (metis IntD2 imageI)

lemma wf_rows_valid: "wf_rows valid df rows \<Longrightarrow> r \<in> set rows \<Longrightarrow> sr_age_group r \<in> set valid"
  unfolding wf_rows_def by blast

subsection \<open>Sums over groups and truncated shares\<close>

lemma sum_indicator_key:
  "distinct (map f gs) \<Longrightarrow> k \<in> f ` set gs \<Longrightarrow> (\<Sum>g\<leftarrow>gs. if f g = k then (1::int) else 0) = 1"
proof (induction gs)
  case Nil
  then show ?case by simp
next
  case (Cons g gs)
  show ?case
  proof (cases "f g = k")
    case True
    then have "k \<notin> f ` set gs" using Cons.prems(1) by auto
    then have "(\<Sum>g\<leftarrow>gs. if f g = k then (1::int) else 0) = 0"
      by (induction gs) auto
    then show ?thesis using True by simp
  next
    case False
    then show ?thesis using Cons by auto
  qed
qed

lemma sum_count_keys:
  "distinct (map f gs) \<Longrightarrow> set ks \<subseteq> f ` set gs \<Longrightarrow>
   (\<Sum>g\<leftarrow>gs. int (count_list ks (f g))) = int (length ks)"
proof (induction ks)
  case Nil
  then show ?case by simp
next
  case (Cons k ks)
  have "(\<Sum>g\<leftarrow>gs. int (count_list (k # ks) (f g)))
      = (\<Sum>g\<leftarrow>gs. int (count_list ks (f g)) + (if f g = k then 1 else 0))"
    by (rule arg_cong[where f = sum_list]) (rule map_cong, auto)
  also have "\<dots> = (\<Sum>g\<leftarrow>gs. int (count_list ks (f g))) + (\<Sum>g\<leftarrow>gs. if f g = k then 1 else 0)"
    by (simp add: sum_list_addf)
  also have "\<dots> = int (length ks) + 1"
    using Cons sum_indicator_key[of f gs k] by simp
  finally show ?case by simp
qed

lemma sum_filter_keys:
  "distinct (map f gs) \<Longrightarrow> fst ` set ps \<subseteq> f ` set gs \<Longrightarrow>
   (\<Sum>g\<leftarrow>gs. sum_list (map h (filter (\<lambda>x. fst x = f g) ps))) = (sum_list (map h ps) :: int)"
proof (induction ps)
  case Nil
  then show ?case by simp
next
  case (Cons p ps)
  have "(\<Sum>g\<leftarrow>gs. sum_list (map h (filter (\<lambda>x. fst x = f g) (p # ps))))
      = (\<Sum>g\<leftarrow>gs. sum_list (map h (filter (\<lambda>x. fst x = f g) ps)) + h p * (if f g = fst p then 1 else 0))"
    by (rule arg_cong[where f = sum_list]) (rule map_cong, auto)
  also have "\<dots> = (\<Sum>g\<leftarrow>gs. sum_list (map h (filter (\<lambda>x. fst x = f g) ps)))
                 + h p * (\<Sum>g\<leftarrow>gs. if f g = fst p then 1 else 0)"
    by (simp add: sum_list_addf sum_list_const_mult)
  also have "\<dots> = sum_list (map h ps) + h p * 1"
    using Cons sum_indicator_key[of f gs "fst p"] by simp
  finally show ?case by simp
qed

lemma sum_list_pos_int:
  "gs \<noteq> [] \<Longrightarrow> \<forall>g \<in> set gs. 0 < h g \<Longrightarrow> 0 < (sum_list (map h gs) :: int)"
proof (induction gs)
  case Nil
  then show ?case by simp
next
  case (Cons g gs)
  have "0 \<le> sum_list (map h gs)" by (rule sum_list_nonneg) (use Cons.prems in auto)
  then show ?case using Cons.prems by simp
qed

lemma shares_sum:
  assumes "t = sum_list (map starters_count gs)" "t \<noteq> 0"
  shows "sum_list (map snd (shares gs t b)) = of_int b"
proof -
  have "sum_list (map snd (shares gs t b))
      = (\<Sum>g\<leftarrow>gs. of_int (starters_count g) / of_int t * of_int b)"
    by (simp add: shares_def comp_def)
  also have "\<dots> = (\<Sum>g\<leftarrow>gs. of_int (starters_count g) * (of_int b / of_int t))"
    by (rule arg_cong[where f = sum_list]) (rule map_cong, auto)
  also have "\<dots> = (\<Sum>g\<leftarrow>gs. of_int (starters_count g)) * (of_int b / of_int t)"
    by (simp only: sum_list_mult_const)
  also have "(\<Sum>g\<leftarrow>gs. (of_int (starters_count g) :: rat)) = of_int t"
    unfolding assms(1) by (induction gs) auto
  finally show ?thesis using assms(2) by simp
qed

lemma floor_sum_upper:
  "\<forall>x \<in> set ps. 0 \<le> snd x \<Longrightarrow>
   of_int (sum_list (map (\<lambda>x. py_int (snd x)) ps)) \<le> sum_list (map snd ps)"
proof (induction ps)
  case Nil
  then show ?case by simp
next
  case (Cons p ps)
  have p: "py_int (snd p) = \<lfloor>snd p\<rfloor>" using Cons.prems by (simp add: py_int_def)
  have lo: "of_int (py_int (snd p)) \<le> snd p" unfolding p by linarith
  have ih: "of_int (sum_list (map (\<lambda>x. py_int (snd x)) ps)) \<le> sum_list (map snd ps)"
    using Cons by simp
  have e1: "(of_int (sum_list (map (\<lambda>x. py_int (snd x)) (p # ps))) :: rat)
      = of_int (py_int (snd p)) + of_int (sum_list (map (\<lambda>x. py_int (snd x)) ps))" by simp
  have e2: "sum_list (map snd (p # ps)) = snd p + sum_list (map snd ps)" by simp
  show ?case unfolding e1 e2 using lo ih by linarith
qed

lemma floor_sum_lower:
  "\<forall>x \<in> set ps. 0 \<le> snd x \<Longrightarrow>
   sum_list (map snd ps) - of_int (int (length ps)) \<le> of_int (sum_list (map (\<lambda>x. py_int (snd x)) ps))"
proof (induction ps)
  case Nil
  then show ?case by simp
next
  case (Cons p ps)
  have p: "py_int (snd p) = \<lfloor>snd p\<rfloor>" using Cons.prems by (simp add: py_int_def)
  have hi: "snd p - 1 \<le> of_int (py_int (snd p))" unfolding p by linarith
  have ih: "sum_list (map snd ps) - of_int (int (length ps)) \<le> of_int (sum_list (map (\<lambda>x. py_int (snd x)) ps))"
    using Cons by simp
  have e1: "(of_int (sum_list (map (\<lambda>x. py_int (snd x)) (p # ps))) :: rat)
      = of_int (py_int (snd p)) + of_int (sum_list (map (\<lambda>x. py_int (snd x)) ps))" by simp
  have e2: "sum_list (map snd (p # ps)) = snd p + sum_list (map snd ps)" by simp
  have e3: "(of_int (int (length (p # ps))) :: rat) = 1 + of_int (int (length ps))" by simp
  show ?case unfolding e1 e2 e3 using hi ih by linarith
qed

subsection \<open>One apportionment and one reallocation step\<close>

lemma fold_update_zero:
  "fst ` set (fold (\<lambda>ag d. AList.update ag 0 d) vs d0) = set vs \<union> fst ` set d0 \<and>
   (distinct (map fst d0) \<longrightarrow> distinct (map fst (fold (\<lambda>ag d. AList.update ag 0 d) vs d0))) \<and>
   (\<forall>k. slots (fold (\<lambda>ag d. AList.update ag 0 d) vs d0) k = (if k \<in> set vs then 0 else slots d0 k))"
proof (induction vs arbitrary: d0)
  case Nil
  then show ?case by simp
next
  case (Cons v vs)
  show ?case
    using Cons.IH[of "AList.update v 0 d0"]
    by (auto simp: dom_update distinct_update slots_update)
qed

lemma init_allocation_keys: "fst ` set (init_allocation valid) = set valid"
  using fold_update_zero[of valid "[]"] by (simp add: init_allocation_def)

lemma init_allocation_distinct: "distinct (map fst (init_allocation valid))"
  using fold_update_zero[of valid "[]"] by (simp add: init_allocation_def)

lemma init_allocation_slots: "slots (init_allocation valid) k = 0"
  using fold_update_zero[of valid "[]"] by (simp add: init_allocation_def slots_def)

lemma fill_missing_id: "set valid \<subseteq> fst ` set d \<Longrightarrow> fill_missing valid d = d"
proof -
  have "set vs \<subseteq> fst ` set d \<Longrightarrow>
        fold (\<lambda>ag d. if map_of d ag = None then AList.update ag 0 d else d) vs d = d" for vs
    by (induction vs) (auto simp: map_of_eq_None_iff)
  then show "set valid \<subseteq> fst ` set d \<Longrightarrow> fill_missing valid d = d"
    by (simp add: fill_missing_def)
qed

lemma sort_desc_set: "set (sort_desc xs) = set xs"
  by (simp add: sort_desc_def)

lemma sort_desc_length: "length (sort_desc xs) = length xs"
  by (simp add: sort_desc_def)

lemma py_int_nonneg: "0 \<le> x \<Longrightarrow> 0 \<le> py_int x"
  by (simp add: py_int_def)

lemma shares_keys: "map fst (shares gs t b) = map sr_age_group gs"
  by (simp add: shares_def comp_def)

lemma decimal_parts_keys: "map fst (decimal_parts ps) = map fst ps"
  by (induction ps) (auto simp: decimal_parts_def)

lemma shares_nonneg:
  assumes "\<forall>g \<in> set gs. 0 < starters_count g" "0 < t" "0 < b" "x \<in> set (shares gs t b)"
  shows "0 \<le> snd x"
  using assms by (auto simp: shares_def)

lemma floors_nonneg:
  assumes "\<forall>x \<in> set ps. 0 \<le> snd x"
  shows "0 \<le> sum_list (map (\<lambda>x. py_int (snd x)) (filter P ps))"
  by (rule sum_list_nonneg) (use assms py_int_nonneg in auto)

lemma floors_absent:
  "k \<notin> fst ` set ps \<Longrightarrow> sum_list (map (\<lambda>x. py_int (snd x)) (filter (\<lambda>x. fst x = k) ps)) = 0"
proof -
  assume "k \<notin> fst ` set ps"
  then have "filter (\<lambda>x. fst x = k) ps = []" by (auto simp: filter_empty_conv)
  then show ?thesis by simp
qed

lemma count_take_absent:
  "k \<notin> fst ` set ranked \<Longrightarrow> count_list (map fst (drop i (take n ranked))) k = 0"
proof -
  assume a: "k \<notin> fst ` set ranked"
  have "set (drop i (take n ranked)) \<subseteq> set ranked"
    by (meson set_drop_subset set_take_subset subset_trans)
  then have "k \<notin> set (map fst (drop i (take n ranked)))" using a by auto
  then show ?thesis by (simp add: count_list_0_iff)
qed

lemma total_of_add:
  assumes "\<forall>k. slots d' k = slots d k + h k"
  shows "total_of d' gs = total_of d gs + (\<Sum>g\<leftarrow>gs. h (sr_age_group g))"
proof -
  have "total_of d' gs = (\<Sum>g\<leftarrow>gs. slots d (sr_age_group g) + h (sr_age_group g))"
    unfolding total_of_def using assms by simp
  then show ?thesis by (simp add: sum_list_addf total_of_def)
qed

lemma apportion_ok:
  assumes sub: "sr_age_group ` set gs \<subseteq> fst ` set d"
    and pos: "\<forall>g \<in> set gs. 0 < starters_count g"
  shows "\<exists>d' rest. apportion gs d b = Inr (d', rest) \<and> map fst d' = map fst d \<and>
          (\<forall>k. slots d k \<le> slots d' k) \<and>
          (\<forall>k. k \<notin> sr_age_group ` set gs \<longrightarrow> slots d' k = slots d k) \<and>
          (distinct (map sr_age_group gs) \<and> gs \<noteq> [] \<and> 0 \<le> b \<longrightarrow>
             total_of d' gs = total_of d gs + b) \<and>
          (0 < rest \<longrightarrow>
             (\<forall>k. slots d' k = slots d k + extra_slots gs b rest k))"
proof (cases "b > 0 \<and> gs \<noteq> [] \<and> sum_list (map starters_count gs) > 0")
  case False
  then have a: "apportion gs d b = Inr (d, b)" by (auto simp: apportion_def Let_def)
  have z: "b = 0" if "gs \<noteq> []" "0 \<le> b"
    using False that sum_list_pos_int[OF that(1) pos] by auto
  have e: "extra_slots gs b b k = 0" if "0 < b" for k
  proof -
    have "gs = []" using z that by fastforce
    then show ?thesis
      by (simp add: extra_slots_def shares_def decimal_parts_def sort_desc_def Let_def)
  qed
  show ?thesis
    using a z e by (intro exI[of _ d] exI[of _ b]) simp
next
  case True
  let ?t = "sum_list (map starters_count gs)"
  let ?ps = "shares gs ?t b"
  let ?F = "sum_list (map (\<lambda>x. py_int (snd x)) ?ps)"
  have pk: "fst ` set ?ps = sr_age_group ` set gs"
    using shares_keys[of gs ?t b] by (metis set_map)
  have p: "prop_slots gs ?t b = Inr ?ps" using True by (intro prop_slots_ok) simp
  have nn: "\<forall>x \<in> set ?ps. 0 \<le> snd x" using shares_nonneg[OF pos] True by blast
  from add_floors_ok[of ?ps d b] sub pk obtain d1 where d1:
    "add_floors ?ps d b = Inr (d1, b - ?F)"
    "map fst d1 = map fst d"
    "\<forall>k. slots d1 k = slots d k + sum_list (map (\<lambda>x. py_int (snd x)) (filter (\<lambda>x. fst x = k) ?ps))"
    by auto
  let ?rest = "b - ?F"
  have m1: "\<forall>k. slots d k \<le> slots d1 k" using d1(3) floors_nonneg[OF nn] by simp
  have o1: "\<forall>k. k \<notin> sr_age_group ` set gs \<longrightarrow> slots d1 k = slots d k"
  proof (intro allI impI)
    fix k assume "k \<notin> sr_age_group ` set gs"
    then have "k \<notin> fst ` set ?ps" using pk by simp
    then have "sum_list (map (\<lambda>x. py_int (snd x)) (filter (\<lambda>x. fst x = k) ?ps)) = 0"
      by (rule floors_absent)
    then show "slots d1 k = slots d k" using d1(3) by simp
  qed
  have t1: "total_of d1 gs = total_of d gs + ?F" if dist: "distinct (map sr_age_group gs)"
  proof -
    have "total_of d1 gs = total_of d gs +
        (\<Sum>g\<leftarrow>gs. sum_list (map (\<lambda>x. py_int (snd x)) (filter (\<lambda>x. fst x = sr_age_group g) ?ps)))"
      using d1(3) by (rule total_of_add)
    also have "(\<Sum>g\<leftarrow>gs. sum_list (map (\<lambda>x. py_int (snd x)) (filter (\<lambda>x. fst x = sr_age_group g) ?ps))) = ?F"
      by (rule sum_filter_keys[OF dist]) (simp add: pk)
    finally show ?thesis .
  qed
  have ssum: "sum_list (map snd ?ps) = of_int b" using True by (intro shares_sum) auto
  have len: "length ?ps = length gs" by (simp add: shares_def)
  have up: "?F \<le> b"
  proof -
    have "(of_int ?F :: rat) \<le> of_int b" using floor_sum_upper[OF nn] ssum by simp
    then show ?thesis by (simp only: of_int_le_iff)
  qed
  have lo: "b - int (length gs) \<le> ?F"
  proof -
    have "(of_int b :: rat) - of_int (int (length gs)) \<le> of_int ?F"
      using floor_sum_lower[OF nn] ssum len by simp
    then have "(of_int (b - int (length gs)) :: rat) \<le> of_int ?F" by simp
    then show ?thesis by (simp only: of_int_le_iff)
  qed
  show ?thesis
  proof (cases "?rest > 0")
    case False
    then have "apportion gs d b = Inr (d1, ?rest)"
      using True p d1(1) by (simp add: apportion_def Let_def)
    moreover have "distinct (map sr_age_group gs) \<longrightarrow> total_of d1 gs = total_of d gs + b"
      using t1 False up by auto
    ultimately show ?thesis using d1(2) m1 o1 False by blast
  next
    case r: True
    let ?ranked = "sort_desc (decimal_parts ?ps)"
    let ?ks = "map fst (drop 0 (take (nat ?rest) ?ranked))"
    have rk: "fst ` set ?ranked = sr_age_group ` set gs"
      using pk decimal_parts_keys[of ?ps] by (metis sort_desc_set set_map)
    then have "fst ` set ?ranked \<subseteq> fst ` set d1" using sub d1(2) keys_eq_set by metis
    from award_upt[OF this, of 0 "nat ?rest"] obtain d2 where d2:
      "award ?ranked [0..<nat ?rest] d1 = Inr d2" "map fst d2 = map fst d1"
      "\<forall>k. slots d2 k = slots d1 k + int (count_list ?ks k)"
      by blast
    have a: "apportion gs d b = Inr (d2, ?rest)"
      using True p d1(1) r d2(1) by (simp add: apportion_def Let_def)
    have k2: "map fst d2 = map fst d" using d2(2) d1(2) by simp
    have m2: "\<forall>k. slots d k \<le> slots d2 k"
    proof
      fix k
      have "slots d k \<le> slots d1 k" using m1 by simp
      also have "\<dots> \<le> slots d2 k" using d2(3) by simp
      finally show "slots d k \<le> slots d2 k" .
    qed
    have o2: "\<forall>k. k \<notin> sr_age_group ` set gs \<longrightarrow> slots d2 k = slots d k"
      using d2(3) o1 count_take_absent[of _ ?ranked 0] rk by simp
    have t2: "total_of d2 gs = total_of d gs + b" if dist: "distinct (map sr_age_group gs)"
    proof -
      have lr: "length ?ranked = length gs"
        by (simp add: sort_desc_length decimal_parts_def len)
      have "set ?ks \<subseteq> fst ` set ?ranked" by (auto dest: in_set_takeD)
      then have sk: "set ?ks \<subseteq> sr_age_group ` set gs" using rk by simp
      have "total_of d2 gs = total_of d1 gs + (\<Sum>g\<leftarrow>gs. int (count_list ?ks (sr_age_group g)))"
        using d2(3) by (rule total_of_add)
      also have "(\<Sum>g\<leftarrow>gs. int (count_list ?ks (sr_age_group g))) = int (length ?ks)"
        by (rule sum_count_keys[OF dist sk])
      also have "int (length ?ks) = ?rest" using lr lo r by simp
      finally show ?thesis using t1[OF dist] by simp
    qed
    have x2: "\<forall>k. slots d2 k = slots d k + extra_slots gs b ?rest k"
      using d1(3) d2(3) by (simp add: extra_slots_def take_map Let_def)
    show ?thesis using a k2 m2 o2 t2 x2 by blast
  qed
qed

lemma ratios_ok: "ratios ts d = Inr (target_ratios ts d)"
  by (induction ts) (auto simp: checked_div_def target_ratios_def)

lemma target_ratios_keys: "map fst (target_ratios ts d) = map sr_age_group ts"
  by (simp add: target_ratios_def comp_def)

lemma set_ranked_targets:
  "set (ranked_targets mg fg row d) = sr_age_group ` set (target_groups mg fg row)"
proof -
  have "set (ranked_targets mg fg row d)
      = fst ` set (target_ratios (target_groups mg fg row) (AList.update (sr_age_group row) 0 d))"
    by (simp add: ranked_targets_def sort_desc_set)
  also have "\<dots> = set (map fst (target_ratios (target_groups mg fg row) (AList.update (sr_age_group row) 0 d)))"
    by simp
  also have "\<dots> = sr_age_group ` set (target_groups mg fg row)"
    unfolding target_ratios_keys by simp
  finally show ?thesis .
qed

lemma reallocate_row_ok:
  assumes mg: "sr_age_group ` set mg \<subseteq> fst ` set d"
    and fg: "sr_age_group ` set fg \<subseteq> fst ` set d"
    and w: "withdrawn d row"
  shows "\<exists>d'. reallocate_row mg fg row d = Inr d' \<and> map fst d' = map fst d \<and>
          (\<forall>k. slots d' k = (if k = sr_age_group row then 0 else slots d k) +
                 int (count_list (take (nat (slots d (sr_age_group row))) (ranked_targets mg fg row d)) k))"
proof -
  let ?ag = "sr_age_group row"
  let ?d0 = "AList.update ?ag 0 d"
  let ?ts = "target_groups mg fg row"
  let ?n = "nat (slots d ?ag)"
  have "map_of d ?ag \<noteq> None"
    using w by (auto simp: withdrawn_def split: option.splits)
  then have agin: "?ag \<in> fst ` set d" by (simp add: map_of_eq_None_iff)
  have k0: "map fst ?d0 = map fst d" using agin by (rule map_fst_update_present)
  then have ks: "fst ` set ?d0 = fst ` set d" by (rule keys_eq_set)
  show ?thesis
  proof (cases "?ts = []")
    case True
    then have "reallocate_row mg fg row d = Inr ?d0" by (simp add: reallocate_row_def Let_def)
    moreover have "ranked_targets mg fg row d = []"
      using True by (simp add: ranked_targets_def target_ratios_def sort_desc_def)
    ultimately show ?thesis using k0 by (simp add: slots_update)
  next
    case False
    let ?ranked = "sort_desc (target_ratios ?ts ?d0)"
    have "set ?ts \<subseteq> set mg \<union> set fg" by (auto simp: target_groups_def)
    then have "sr_age_group ` set ?ts \<subseteq> fst ` set ?d0" using mg fg ks by blast
    moreover have "fst ` set ?ranked = sr_age_group ` set ?ts"
      using set_ranked_targets[of mg fg row d] by (simp add: ranked_targets_def)
    ultimately have "fst ` set ?ranked \<subseteq> fst ` set ?d0" by simp
    from award_upt[OF this, of 0 ?n] obtain d' where d':
      "award ?ranked [0..<?n] ?d0 = Inr d'" "map fst d' = map fst ?d0"
      "\<forall>k. slots d' k = slots ?d0 k + int (count_list (map fst (drop 0 (take ?n ?ranked))) k)"
      by blast
    have "reallocate_row mg fg row d = Inr d'"
      using False d'(1) by (simp add: reallocate_row_def Let_def ratios_ok)
    moreover have "map fst d' = map fst d" using d'(2) k0 by simp
    moreover have "\<forall>k. slots d' k = (if k = ?ag then 0 else slots d k) +
                 int (count_list (take ?n (ranked_targets mg fg row d)) k)"
      using d'(3) by (simp add: slots_update ranked_targets_def take_map)
    ultimately show ?thesis by blast
  qed
qed

subsection \<open>The reallocation loop and the whole allocator\<close>

lemma withdrawn_iff:
  "withdrawn d row \<longleftrightarrow>
     0 < starters_count row \<and> finishers_count row = 0 \<and> 0 < slots d (sr_age_group row)"
  by (auto simp: withdrawn_def slots_def split: option.splits)

lemma ranked_targets_sub: "set (ranked_targets mg fg row d) \<subseteq> target_keys mg fg"
  unfolding set_ranked_targets by (auto simp: target_groups_def target_keys_def)

lemma count_take_ranked_absent:
  "k \<notin> target_keys mg fg \<Longrightarrow> count_list (take n (ranked_targets mg fg row d)) k = 0"
proof -
  assume a: "k \<notin> target_keys mg fg"
  have "set (take n (ranked_targets mg fg row d)) \<subseteq> target_keys mg fg"
    using ranked_targets_sub set_take_subset by (metis subset_trans)
  then show ?thesis using a by (auto simp: count_list_0_iff)
qed

lemma reallocate_ok:
  assumes "sr_age_group ` set mg \<subseteq> fst ` set d" "sr_age_group ` set fg \<subseteq> fst ` set d"
  shows "\<exists>d'. reallocate mg fg rows d = Inr d' \<and> map fst d' = map fst d \<and>
          ((\<forall>k. 0 \<le> slots d k) \<longrightarrow> (\<forall>k. 0 \<le> slots d' k)) \<and>
          (\<forall>k. k \<notin> target_keys mg fg \<longrightarrow>
                slots d' k = (if 0 < slots d k \<and> k \<in> zero_keys rows then 0 else slots d k))"
  using assms
proof (induction rows arbitrary: d)
  case Nil
  then show ?case by (simp add: zero_keys_def)
next
  case (Cons row rows)
  show ?case
  proof (cases "withdrawn d row")
    case False
    from Cons.IH[OF Cons.prems] obtain d' where d':
      "reallocate mg fg rows d = Inr d'" "map fst d' = map fst d"
      "(\<forall>k. 0 \<le> slots d k) \<longrightarrow> (\<forall>k. 0 \<le> slots d' k)"
      "\<forall>k. k \<notin> target_keys mg fg \<longrightarrow>
                slots d' k = (if 0 < slots d k \<and> k \<in> zero_keys rows then 0 else slots d k)"
      by blast
    have z: "0 < slots d k \<and> k \<in> zero_keys (row # rows) \<longleftrightarrow> 0 < slots d k \<and> k \<in> zero_keys rows" for k
      using False by (auto simp: zero_keys_def withdrawn_iff)
    have "reallocate mg fg (row # rows) d = Inr d'" using False d'(1) by simp
    moreover have "\<forall>k. k \<notin> target_keys mg fg \<longrightarrow>
                slots d' k = (if 0 < slots d k \<and> k \<in> zero_keys (row # rows) then 0 else slots d k)"
      using d'(4) z by simp
    ultimately show ?thesis using d'(2,3) by blast
  next
    case True
    let ?ag = "sr_age_group row"
    let ?n = "nat (slots d ?ag)"
    from reallocate_row_ok[OF Cons.prems True] obtain d1 where d1:
      "reallocate_row mg fg row d = Inr d1" "map fst d1 = map fst d"
      "\<forall>k. slots d1 k = (if k = ?ag then 0 else slots d k) +
                 int (count_list (take ?n (ranked_targets mg fg row d)) k)"
      by blast
    have ks: "fst ` set d1 = fst ` set d" using d1(2) by (rule keys_eq_set)
    from Cons.IH[of d1] Cons.prems ks obtain d' where d':
      "reallocate mg fg rows d1 = Inr d'" "map fst d' = map fst d1"
      "(\<forall>k. 0 \<le> slots d1 k) \<longrightarrow> (\<forall>k. 0 \<le> slots d' k)"
      "\<forall>k. k \<notin> target_keys mg fg \<longrightarrow>
                slots d' k = (if 0 < slots d1 k \<and> k \<in> zero_keys rows then 0 else slots d1 k)"
      by auto
    have nn: "(\<forall>k. 0 \<le> slots d k) \<longrightarrow> (\<forall>k. 0 \<le> slots d1 k)" using d1(3) by simp
    have out: "slots d1 k = (if k = ?ag then 0 else slots d k)" if "k \<notin> target_keys mg fg" for k
      using d1(3) count_take_ranked_absent[OF that] by simp
    have agz: "?ag \<in> zero_keys (row # rows)" "0 < slots d ?ag"
      using True by (auto simp: zero_keys_def withdrawn_iff)
    have zk: "k \<in> zero_keys (row # rows) \<longleftrightarrow> k \<in> zero_keys rows" if "k \<noteq> ?ag" for k
      using that by (auto simp: zero_keys_def)
    have "reallocate mg fg (row # rows) d = Inr d'" using True d1(1) d'(1) by simp
    moreover have "map fst d' = map fst d" using d'(2) d1(2) by simp
    moreover have "(\<forall>k. 0 \<le> slots d k) \<longrightarrow> (\<forall>k. 0 \<le> slots d' k)" using nn d'(3) by blast
    moreover have "\<forall>k. k \<notin> target_keys mg fg \<longrightarrow>
                slots d' k = (if 0 < slots d k \<and> k \<in> zero_keys (row # rows) then 0 else slots d k)"
    proof (intro allI impI)
      fix k assume k: "k \<notin> target_keys mg fg"
      show "slots d' k = (if 0 < slots d k \<and> k \<in> zero_keys (row # rows) then 0 else slots d k)"
      proof (cases "k = ?ag")
        case True
        then show ?thesis using d'(4) k out[OF k] agz by simp
      next
        case False
        then show ?thesis using d'(4) k out[OF k] zk[OF False] by simp
      qed
    qed
    ultimately show ?thesis by blast
  qed
qed

lemma min_guarantee_distinct:
  "distinct (map fst d) \<Longrightarrow> distinct (map fst (fst (min_guarantee rows (d, m, f))))"
  by (induction rows arbitrary: d m f) (auto simp: distinct_update)

lemma groups_sub_started:
  "sr_age_group ` set (male_groups rows) \<subseteq> started_keys rows"
  "sr_age_group ` set (female_groups rows) \<subseteq> started_keys rows"
  by (auto simp: male_groups_def female_groups_def started_keys_def)

lemma groups_pos:
  "\<forall>g \<in> set (male_groups rows). 0 < starters_count g"
  "\<forall>g \<in> set (female_groups rows). 0 < starters_count g"
  by (auto simp: male_groups_def female_groups_def)

lemma before_reallocation_ok:
  "\<exists>d2. before_reallocation valid rows m w = Inr d2 \<and>
        fst ` set d2 = set valid \<union> started_keys rows \<and>
        distinct (map fst d2) \<and>
        (\<forall>k. 0 \<le> slots d2 k) \<and>
        (\<forall>k \<in> started_keys rows. 1 \<le> slots d2 k) \<and>
        (\<forall>k. k \<notin> started_keys rows \<longrightarrow> slots d2 k = 0)"
proof -
  let ?K = "started_keys rows"
  from min_guarantee_ok[of rows "init_allocation valid" m w] obtain d0 m' f' where d0:
    "min_guarantee rows (init_allocation valid, m, w) = (d0, m', f')"
    "fst ` set d0 = fst ` set (init_allocation valid) \<union> ?K"
    "\<forall>k. slots d0 k = (if k \<in> ?K then 1 else slots (init_allocation valid) k)"
    unfolding started_keys_def by blast
  have k0: "fst ` set d0 = set valid \<union> ?K" using d0(2) by (simp add: init_allocation_keys)
  have s0: "\<forall>k. slots d0 k = (if k \<in> ?K then 1 else 0)" using d0(3) by (simp add: init_allocation_slots)
  have dist0: "distinct (map fst d0)"
    using min_guarantee_distinct[of "init_allocation valid" rows m w, OF init_allocation_distinct] d0(1) by simp
  have "sr_age_group ` set (male_groups rows) \<subseteq> fst ` set d0" using groups_sub_started(1) k0 by blast
  from apportion_ok[OF this groups_pos(1), of m'] obtain d1 r1 where d1:
    "apportion (male_groups rows) d0 m' = Inr (d1, r1)" "map fst d1 = map fst d0"
    "\<forall>k. slots d0 k \<le> slots d1 k"
    "\<forall>k. k \<notin> sr_age_group ` set (male_groups rows) \<longrightarrow> slots d1 k = slots d0 k"
    by blast
  have k1: "fst ` set d1 = fst ` set d0" using d1(2) by (rule keys_eq_set)
  have "sr_age_group ` set (female_groups rows) \<subseteq> fst ` set d1" using groups_sub_started(2) k0 k1 by blast
  from apportion_ok[OF this groups_pos(2), of f'] obtain d2 r2 where d2:
    "apportion (female_groups rows) d1 f' = Inr (d2, r2)" "map fst d2 = map fst d1"
    "\<forall>k. slots d1 k \<le> slots d2 k"
    "\<forall>k. k \<notin> sr_age_group ` set (female_groups rows) \<longrightarrow> slots d2 k = slots d1 k"
    by blast
  have k2: "fst ` set d2 = fst ` set d1" using d2(2) by (rule keys_eq_set)
  have 1: "before_reallocation valid rows m w = Inr d2"
    using d0(1) d1(1) d2(1) by (simp add: before_reallocation_def)
  have 2: "fst ` set d2 = set valid \<union> ?K" using k0 k1 k2 by simp
  have 3: "distinct (map fst d2)" using dist0 d1(2) d2(2) by simp
  have mono: "slots d0 k \<le> slots d2 k" for k using d1(3) d2(3) by (meson order_trans)
  have 4: "\<forall>k. 0 \<le> slots d2 k"
  proof
    fix k
    have "0 \<le> slots d0 k" using s0 by simp
    then show "0 \<le> slots d2 k" using mono[of k] by linarith
  qed
  have 5: "\<forall>k \<in> ?K. 1 \<le> slots d2 k"
  proof
    fix k assume "k \<in> ?K"
    then have "slots d0 k = 1" using s0 by simp
    then show "1 \<le> slots d2 k" using mono[of k] by linarith
  qed
  have 6: "\<forall>k. k \<notin> ?K \<longrightarrow> slots d2 k = 0"
  proof (intro allI impI)
    fix k assume k: "k \<notin> ?K"
    then have "k \<notin> sr_age_group ` set (male_groups rows)" "k \<notin> sr_age_group ` set (female_groups rows)"
      using groups_sub_started by blast+
    then have "slots d2 k = slots d0 k" using d1(4) d2(4) by simp
    then show "slots d2 k = 0" using s0 k by simp
  qed
  show ?thesis using 1 2 3 4 5 6 by blast
qed

lemma target_keys_sub_started:
  "target_keys (male_groups rows) (female_groups rows) \<subseteq> started_keys rows"
  using groups_sub_started[of rows] unfolding target_keys_def by blast

lemma allocate_rows_ok:
  "\<exists>d2 d. before_reallocation valid rows m w = Inr d2 \<and>
        reallocate (male_groups rows) (female_groups rows) rows d2 = Inr d \<and>
        allocate_rows valid rows m w = Inr d \<and>
        map fst d = map fst d2 \<and>
        fst ` set d = set valid \<union> started_keys rows \<and>
        distinct (map fst d) \<and>
        (\<forall>k. 0 \<le> slots d k) \<and>
        (\<forall>k \<in> started_keys rows. 1 \<le> slots d2 k) \<and>
        (\<forall>k. k \<notin> started_keys rows \<longrightarrow> slots d k = 0) \<and>
        (\<forall>k. k \<notin> target_keys (male_groups rows) (female_groups rows) \<longrightarrow>
              slots d k = (if 0 < slots d2 k \<and> k \<in> zero_keys rows then 0 else slots d2 k))"
proof -
  from before_reallocation_ok[of valid rows m w] obtain d2 where d2:
    "before_reallocation valid rows m w = Inr d2"
    "fst ` set d2 = set valid \<union> started_keys rows"
    "distinct (map fst d2)" "\<forall>k. 0 \<le> slots d2 k"
    "\<forall>k \<in> started_keys rows. 1 \<le> slots d2 k"
    "\<forall>k. k \<notin> started_keys rows \<longrightarrow> slots d2 k = 0"
    by blast
  have mg: "sr_age_group ` set (male_groups rows) \<subseteq> fst ` set d2"
    and fg: "sr_age_group ` set (female_groups rows) \<subseteq> fst ` set d2"
    using groups_sub_started d2(2) by blast+
  from reallocate_ok[OF mg fg, of rows] obtain d where d:
    "reallocate (male_groups rows) (female_groups rows) rows d2 = Inr d" "map fst d = map fst d2"
    "(\<forall>k. 0 \<le> slots d2 k) \<longrightarrow> (\<forall>k. 0 \<le> slots d k)"
    "\<forall>k. k \<notin> target_keys (male_groups rows) (female_groups rows) \<longrightarrow>
              slots d k = (if 0 < slots d2 k \<and> k \<in> zero_keys rows then 0 else slots d2 k)"
    by blast
  have ks: "fst ` set d = fst ` set d2" using d(2) by (rule keys_eq_set)
  then have "set valid \<subseteq> fst ` set d" using d2(2) by blast
  then have "fill_missing valid d = d" by (rule fill_missing_id)
  then have a: "allocate_rows valid rows m w = Inr d"
    using d2(1) d(1) by (simp add: allocate_rows_def)
  have z: "\<forall>k. k \<notin> started_keys rows \<longrightarrow> slots d k = 0"
  proof (intro allI impI)
    fix k assume k: "k \<notin> started_keys rows"
    then have "k \<notin> target_keys (male_groups rows) (female_groups rows)"
      using target_keys_sub_started by blast
    then have "slots d k = (if 0 < slots d2 k \<and> k \<in> zero_keys rows then 0 else slots d2 k)"
      using d(4) by simp
    then show "slots d k = 0" using d2(6) k by simp
  qed
  have 1: "fst ` set d = set valid \<union> started_keys rows" using ks d2(2) by simp
  have 2: "distinct (map fst d)" using d(2) d2(3) by simp
  have 3: "\<forall>k. 0 \<le> slots d k" using d(3) d2(4) by blast
  show ?thesis using d2(1) d(1) a d(2) 1 2 3 d2(5) z d(4) by blast
qed

lemma map_of_slots: "k \<in> fst ` set d \<Longrightarrow> map_of d k = Some (slots d k)"
  by (cases "map_of d k") (auto simp: slots_def map_of_eq_None_iff)

lemma wf_started_keys:
  assumes "wf_rows valid df rows"
  shows "started_keys rows = sr_age_group ` set rows"
    and "started_keys rows = set valid \<inter> age_group ` set df"
proof -
  have "\<forall>r \<in> set rows. starters_count r \<noteq> 0"
    using wf_rows_starters_pos[OF assms] by fastforce
  then show 1: "started_keys rows = sr_age_group ` set rows"
    by (auto simp: started_keys_def)
  show "started_keys rows = set valid \<inter> age_group ` set df"
    using 1 assms by (simp add: wf_rows_def)
qed

subsection \<open>Totals before reallocation\<close>



lemma groups_disjoint:
  assumes "distinct (map sr_age_group rows)"
    and "g \<in> set (male_groups rows)" "h \<in> set (female_groups rows)"
  shows "sr_age_group g \<noteq> sr_age_group h"
proof
  assume e: "sr_age_group g = sr_age_group h"
  have "g \<in> set rows" "h \<in> set rows" using assms(2,3) by (auto simp: male_groups_def female_groups_def)
  then have "g = h" using assms(1) e by (meson distinct_map inj_onD)
  then show False using assms(2,3) by (auto simp: male_groups_def female_groups_def)
qed



subsection \<open>The selector\<close>

lemma with_row_index_iff:
  "(i, c) \<in> set (with_row_index df) \<longleftrightarrow> i < length df \<and> c = df ! i"
proof
  assume "(i, c) \<in> set (with_row_index df)"
  then show "i < length df \<and> c = df ! i"
    by (auto simp: with_row_index_def set_zip)
next
  assume a: "i < length df \<and> c = df ! i"
  then have "[0..<length df] ! i = i" by simp
  then show "(i, c) \<in> set (with_row_index df)"
    unfolding with_row_index_def set_zip using a by force
qed

lemma group_finishers_iff:
  "(i, c) \<in> set (group_finishers df ag) \<longleftrightarrow>
     i < length df \<and> c = df ! i \<and> age_group c = ag \<and> finisher c"
  by (auto simp: group_finishers_def with_row_index_iff)

lemma map_snd_filter_zip:
  "length xs = length ys \<Longrightarrow> map snd (filter (\<lambda>(i, c). P c) (zip xs ys)) = filter P ys"
  by (induction xs ys rule: list_induct2) auto

lemma group_finishers_distinct: "distinct (map fst (group_finishers df ag))"
  unfolding group_finishers_def with_row_index_def
  by (rule distinct_map_filter) simp

lemma group_finishers_length:
  "int (length (group_finishers df ag)) = finishers_of df ag"
proof -
  have "map snd (group_finishers df ag) = filter (\<lambda>c. age_group c = ag \<and> finisher c) df"
    unfolding group_finishers_def with_row_index_def
    by (rule map_snd_filter_zip) simp
  then have "length (group_finishers df ag) = length (filter (\<lambda>c. age_group c = ag \<and> finisher c) df)"
    by (metis length_map)
  then show ?thesis by (simp add: finishers_of_def)
qed

lemma ranked_finishers_set: "set (ranked_finishers df ag) = set (group_finishers df ag)"
  by (simp add: ranked_finishers_def)

lemma ranked_finishers_length: "length (ranked_finishers df ag) = length (group_finishers df ag)"
  by (simp add: ranked_finishers_def)

lemma ranked_finishers_sorted: "sorted (map rank_key (ranked_finishers df ag))"
  unfolding ranked_finishers_def rank_key_def by (rule sorted_sort_key)

lemma ranked_finishers_distinct: "distinct (map fst (ranked_finishers df ag))"
proof -
  have "mset (ranked_finishers df ag) = mset (group_finishers df ag)"
    by (simp add: ranked_finishers_def)
  then have "mset (map fst (ranked_finishers df ag)) = mset (map fst (group_finishers df ag))"
    by (metis mset_map)
  then show ?thesis using group_finishers_distinct mset_eq_imp_distinct_iff by blast
qed

lemma top_finishers_eq:
  "top_finishers df ag n = map fst (take (nat n) (ranked_finishers df ag))"
  by (auto simp: top_finishers_def ranked_finishers_def)

lemma top_finishers_members:
  assumes "i \<in> set (top_finishers df ag n)"
  shows "i < length df \<and> age_group (df ! i) = ag \<and> finisher (df ! i) \<and> 0 < n"
proof -
  from assms obtain c where "(i, c) \<in> set (take (nat n) (ranked_finishers df ag))"
    unfolding top_finishers_eq by auto
  then have "(i, c) \<in> set (group_finishers df ag)" "nat n \<noteq> 0"
    using ranked_finishers_set by (auto dest: in_set_takeD)
  then show ?thesis by (auto simp: group_finishers_iff)
qed

lemma top_finishers_filter:
  "filter (\<lambda>i. age_group (df ! i) = ag) (top_finishers df ag' n)
     = (if ag' = ag then top_finishers df ag n else [])"
proof (cases "ag' = ag")
  case True
  have "filter (\<lambda>i. age_group (df ! i) = ag) (top_finishers df ag n) = top_finishers df ag n"
    by (rule filter_True) (use top_finishers_members in blast)
  then show ?thesis using True by simp
next
  case False
  have "filter (\<lambda>i. age_group (df ! i) = ag) (top_finishers df ag' n) = []"
    unfolding filter_empty_conv using top_finishers_members False by blast
  then show ?thesis using False by simp
qed

lemma qualifiers_of_category:
  "distinct (map fst d) \<Longrightarrow> (ag, n) \<in> set d \<Longrightarrow>
   filter (\<lambda>i. age_group (df ! i) = ag) (determine_qualifiers df d) = top_finishers df ag n"
proof (induction d)
  case Nil
  then show ?case by simp
next
  case (Cons x d)
  obtain ag' n' where x: "x = (ag', n')" by (cases x)
  have dq: "determine_qualifiers df (x # d) = top_finishers df ag' n' @ determine_qualifiers df d"
    by (simp add: determine_qualifiers_def x)
  show ?case
  proof (cases "(ag, n) = x")
    case True
    then have "ag \<notin> fst ` set d" using Cons.prems(1) x by auto
    then have "\<forall>y \<in> set d. fst y \<noteq> ag" by auto
    then have "filter (\<lambda>i. age_group (df ! i) = ag) (determine_qualifiers df d) = []"
    proof (induction d)
      case Nil
      then show ?case by (simp add: determine_qualifiers_def)
    next
      case (Cons y d)
      obtain a m where y: "y = (a, m)" by (cases y)
      have "determine_qualifiers df (y # d) = top_finishers df a m @ determine_qualifiers df d"
        by (simp add: determine_qualifiers_def y)
      then show ?case using Cons y by (simp add: top_finishers_filter)
    qed
    then show ?thesis using True x dq by (simp add: top_finishers_filter)
  next
    case False
    then have in_d: "(ag, n) \<in> set d" using Cons.prems(2) by simp
    then have "ag' \<noteq> ag" using Cons.prems(1) x by force
    then show ?thesis using Cons.IH in_d Cons.prems(1) dq by (simp add: top_finishers_filter)
  qed
qed

lemma qualifiers_members:
  assumes "i \<in> set (determine_qualifiers df d)"
  shows "i < length df \<and> finisher (df ! i) \<and> (\<exists>n. (age_group (df ! i), n) \<in> set d \<and> 0 < n)"
proof -
  from assms obtain ag n where "(ag, n) \<in> set d" "i \<in> set (top_finishers df ag n)"
    by (auto simp: determine_qualifiers_def)
  then show ?thesis using top_finishers_members by blast
qed

lemma top_finishers_length:
  "length (top_finishers df ag n) = min (nat n) (nat (finishers_of df ag))"
proof -
  have "length (group_finishers df ag) = nat (finishers_of df ag)"
    using group_finishers_length[of df ag] by simp
  then show ?thesis by (simp add: top_finishers_eq ranked_finishers_length)
qed

lemma top_finishers_ranks:
  "map (\<lambda>i. age_group_rank (df ! i)) (top_finishers df ag n)
     = take (nat n) (map rank_key (ranked_finishers df ag))"
proof -
  have "map (\<lambda>i. age_group_rank (df ! i)) (map fst (take (nat n) (ranked_finishers df ag)))
      = map rank_key (take (nat n) (ranked_finishers df ag))"
  proof -
    have "\<forall>x \<in> set (take (nat n) (ranked_finishers df ag)). age_group_rank (df ! fst x) = rank_key x"
    proof
      fix x assume "x \<in> set (take (nat n) (ranked_finishers df ag))"
      then have "x \<in> set (group_finishers df ag)"
        using ranked_finishers_set by (auto dest: in_set_takeD)
      then have "snd x = df ! fst x" using group_finishers_iff[of "fst x" "snd x" df ag] by simp
      then show "age_group_rank (df ! fst x) = rank_key x" by (simp add: rank_key_def case_prod_beta)
    qed
    then show ?thesis by simp
  qed
  then show ?thesis by (simp add: top_finishers_eq take_map)
qed

lemma top_finishers_sorted:
  "sorted (map (\<lambda>i. age_group_rank (df ! i)) (top_finishers df ag n))"
  unfolding top_finishers_ranks using ranked_finishers_sorted by (rule sorted_wrt_take)

lemma top_finishers_distinct: "distinct (top_finishers df ag n)"
  unfolding top_finishers_eq using ranked_finishers_distinct
  by (metis distinct_take take_map)

lemma top_finishers_smallest:
  assumes i: "i \<in> set (top_finishers df ag n)"
    and j: "j < length df" "age_group (df ! j) = ag" "finisher (df ! j)"
    and nj: "j \<notin> set (top_finishers df ag n)"
  shows "age_group_rank (df ! i) \<le> age_group_rank (df ! j)"
proof -
  let ?S = "ranked_finishers df ag"
  let ?k = "nat n"
  from i obtain c where c: "(i, c) \<in> set (take ?k ?S)" unfolding top_finishers_eq by auto
  then have "(i, c) \<in> set (group_finishers df ag)"
    using ranked_finishers_set by (auto dest: in_set_takeD)
  then have ci: "c = df ! i" by (simp add: group_finishers_iff)
  have "(j, df ! j) \<in> set ?S" using j by (simp add: ranked_finishers_set group_finishers_iff)
  moreover have "(j, df ! j) \<notin> set (take ?k ?S)"
    using nj unfolding top_finishers_eq by force
  ultimately have dj: "(j, df ! j) \<in> set (drop ?k ?S)"
    by (metis append_take_drop_id set_append Un_iff)
  have "sorted (map rank_key (take ?k ?S) @ map rank_key (drop ?k ?S))"
    using ranked_finishers_sorted[of df ag] by (metis append_take_drop_id map_append)
  then have "\<forall>x \<in> set (map rank_key (take ?k ?S)). \<forall>y \<in> set (map rank_key (drop ?k ?S)). x \<le> y"
    by (simp add: sorted_append)
  then have "rank_key (i, c) \<le> rank_key (j, df ! j)" using c dj by auto
  then show ?thesis using ci by (simp add: rank_key_def)
qed

subsection \<open>The example scenario\<close>

lemma example_frame:
  "slot_df example_valid example_roster =
     [slot_row_of ''M35-39'' 10 8, slot_row_of ''M40-44'' 5 0]"
  by code_simp

lemma example_allocation:
  "allocate_rows example_valid [slot_row_of ''M35-39'' 10 8, slot_row_of ''M40-44'' 5 0] 3 0
     = Inr [(''M35-39'', 3), (''M40-44'', 0)]"
  by code_simp

lemma example_qualifiers:
  "determine_qualifiers example_roster [(''M35-39'', 3), (''M40-44'', 0)] = [7, 6, 5]"
  by code_simp

section \<open>The claims\<close>

lemma example_frame_of:
  "frame_of example_valid example_roster [slot_row_of ''M35-39'' 10 8, slot_row_of ''M40-44'' 5 0]"
  unfolding frame_of_def example_frame by simp

lemma example_counts:
  "starters_of example_roster ''M40-44'' = 5" "finishers_of example_roster ''M40-44'' = 0"
  "starters_of example_roster ''M35-39'' = 10" "finishers_of example_roster ''M35-39'' = 8"
  by code_simp+

text \<open>
  C10. Neither a division by zero nor a missing key is reachable: for every list of
  aggregated rows (so for every roster, with or without starters or finishers of a
  gender), every ground-truth list and all quotas, the allocator returns a dictionary, and
  so does the computation of the reallocation ratios for every list of targets.
\<close>

theorem allocate_never_fails:
  "(\<exists>d. allocate_rows valid rows mens_slots womens_slots = Inr d) \<and>
   (\<exists>d. calculate_slot_allocation valid data_frame mens_slots womens_slots = Inr d) \<and>
   (\<exists>rs. ratios targets d0 = Inr rs)"
proof -
  have "\<exists>d. allocate_rows valid rows mens_slots womens_slots = Inr d" for rows
    using allocate_rows_ok[of valid rows mens_slots womens_slots] by blast
  then show ?thesis unfolding calculate_slot_allocation_def using ratios_ok by blast
qed

text \<open>
  C7. The shape of the returned dictionary: its keys are exactly the ground-truth labels,
  each once; every value is non-negative; a roster category outside the ground truth is no
  key and no qualifier comes from it; a ground-truth label without roster rows has 0.
\<close>

theorem allocation_map_shape:
  assumes "frame_of valid data_frame rows"
    and "allocate_rows valid rows mens_slots womens_slots = Inr d"
  shows "fst ` set d = set valid \<and> distinct (map fst d) \<and>
         (\<forall>(ag, n) \<in> set d. 0 \<le> n) \<and>
         (\<forall>c \<in> set data_frame. age_group c \<notin> set valid \<longrightarrow> map_of d (age_group c) = None) \<and>
         (\<forall>i \<in> set (determine_qualifiers data_frame d).
            i < length data_frame \<and> age_group (data_frame ! i) \<in> set valid) \<and>
         (\<forall>ag \<in> set valid. ag \<notin> age_group ` set data_frame \<longrightarrow> map_of d ag = Some 0)"
proof -
  have wf: "wf_rows valid data_frame rows" using assms(1) by (rule frame_of_wf)
  from allocate_rows_ok[of valid rows mens_slots womens_slots] assms(2) have d:
    "fst ` set d = set valid \<union> started_keys rows" "distinct (map fst d)"
    "\<forall>k. 0 \<le> slots d k" "\<forall>k. k \<notin> started_keys rows \<longrightarrow> slots d k = 0"
    by auto
  have sk: "started_keys rows = set valid \<inter> age_group ` set data_frame"
    using wf by (rule wf_started_keys(2))
  have 1: "fst ` set d = set valid" using d(1) sk by auto
  have 3: "\<forall>(ag, n) \<in> set d. 0 \<le> n"
  proof (clarify)
    fix ag n assume "(ag, n) \<in> set d"
    then have "map_of d ag = Some n" using d(2) by simp
    then have "slots d ag = n" by (simp add: slots_def)
    then show "0 \<le> n" using d(3) by metis
  qed
  have 4: "\<forall>c \<in> set data_frame. age_group c \<notin> set valid \<longrightarrow> map_of d (age_group c) = None"
    using 1 by (simp add: map_of_eq_None_iff)
  have 5: "\<forall>i \<in> set (determine_qualifiers data_frame d).
            i < length data_frame \<and> age_group (data_frame ! i) \<in> set valid"
  proof
    fix i assume "i \<in> set (determine_qualifiers data_frame d)"
    then have "i < length data_frame" "\<exists>n. (age_group (data_frame ! i), n) \<in> set d"
      using qualifiers_members by blast+
    then show "i < length data_frame \<and> age_group (data_frame ! i) \<in> set valid"
      using 1 by force
  qed
  have 6: "\<forall>ag \<in> set valid. ag \<notin> age_group ` set data_frame \<longrightarrow> map_of d ag = Some 0"
  proof (intro ballI impI)
    fix ag assume a: "ag \<in> set valid" "ag \<notin> age_group ` set data_frame"
    then have "slots d ag = 0" using d(4) sk by simp
    moreover have "map_of d ag = Some (slots d ag)" using a(1) 1 by (intro map_of_slots) simp
    ultimately show "map_of d ag = Some 0" by simp
  qed
  show ?thesis using 1 d(2) 3 4 5 6 by blast
qed

theorem allocation_map_shape_witness:
  "frame_of example_valid example_roster [slot_row_of ''M35-39'' 10 8, slot_row_of ''M40-44'' 5 0] \<and>
   allocate_rows example_valid [slot_row_of ''M35-39'' 10 8, slot_row_of ''M40-44'' 5 0] 3 0
     = Inr [(''M35-39'', 3), (''M40-44'', 0)] \<and>
   fst ` set [(''M35-39'', 3::int), (''M40-44'', 0)] = set example_valid \<and>
   distinct (map fst [(''M35-39'', 3::int), (''M40-44'', 0)])"
  using allocation_map_shape[OF example_frame_of example_allocation] example_frame_of example_allocation
  by blast

text \<open>
  C4. In the returned dictionary every ground-truth category that has starters and no
  finisher holds 0.
\<close>

theorem zero_finisher_withdrawn:
  assumes "frame_of valid data_frame rows"
    and "allocate_rows valid rows mens_slots womens_slots = Inr d"
    and "ag \<in> set valid"
    and "0 < starters_of data_frame ag"
    and "finishers_of data_frame ag = 0"
  shows "map_of d ag = Some 0"
proof -
  let ?mg = "male_groups rows" and ?fg = "female_groups rows"
  have wf: "wf_rows valid data_frame rows" using assms(1) by (rule frame_of_wf)
  have dist: "distinct (map sr_age_group rows)" using wf by (simp add: wf_rows_def)
  from allocate_rows_ok[of valid rows mens_slots womens_slots] assms(2) obtain d2 where d:
    "fst ` set d = set valid \<union> started_keys rows"
    "\<forall>k \<in> started_keys rows. 1 \<le> slots d2 k"
    "\<forall>k. k \<notin> target_keys ?mg ?fg \<longrightarrow>
          slots d k = (if 0 < slots d2 k \<and> k \<in> zero_keys rows then 0 else slots d2 k)"
    by auto
  have "ag \<in> age_group ` set data_frame" using assms(4) by (simp add: starters_of_pos_iff)
  then have "ag \<in> sr_age_group ` set rows" using wf assms(3) by (simp add: wf_rows_def)
  then obtain r where r: "r \<in> set rows" "sr_age_group r = ag" by auto
  have rc: "starters_count r = starters_of data_frame ag" "finishers_count r = 0"
    using wf r assms(5) by (auto simp: wf_rows_def)
  have zk: "ag \<in> zero_keys rows" using r rc assms(4) by (force simp: zero_keys_def)
  have st: "ag \<in> started_keys rows" using r wf_started_keys(1)[OF wf] by auto
  have nt: "ag \<notin> target_keys ?mg ?fg"
  proof
    assume "ag \<in> target_keys ?mg ?fg"
    then obtain t where t: "t \<in> set ?mg \<union> set ?fg" "0 < finishers_count t" "sr_age_group t = ag"
      by (auto simp: target_keys_def)
    then have "t \<in> set rows" by (auto simp: male_groups_def female_groups_def)
    then have "t = r" using dist r t(3) by (meson distinct_map inj_onD)
    then show False using t(2) rc(2) by simp
  qed
  have "slots d ag = 0" using d(2,3) nt zk st by force
  moreover have "map_of d ag = Some (slots d ag)" using assms(3) d(1) by (intro map_of_slots) simp
  ultimately show ?thesis by simp
qed

theorem zero_finisher_withdrawn_witness:
  "frame_of example_valid example_roster [slot_row_of ''M35-39'' 10 8, slot_row_of ''M40-44'' 5 0] \<and>
   allocate_rows example_valid [slot_row_of ''M35-39'' 10 8, slot_row_of ''M40-44'' 5 0] 3 0
     = Inr [(''M35-39'', 3), (''M40-44'', 0)] \<and>
   ''M40-44'' \<in> set example_valid \<and>
   0 < starters_of example_roster ''M40-44'' \<and>
   finishers_of example_roster ''M40-44'' = 0 \<and>
   map_of [(''M35-39'', 3::int), (''M40-44'', 0)] ''M40-44'' = Some 0"
proof -
  have v: "''M40-44'' \<in> set example_valid" by (simp add: example_valid_def)
  have s: "0 < starters_of example_roster ''M40-44''" by (simp add: example_counts)
  show ?thesis
    using zero_finisher_withdrawn[OF example_frame_of example_allocation v s example_counts(2)]
      example_frame_of example_allocation v s example_counts(2)
    by blast
qed

lemma started_counts:
  assumes "\<forall>r \<in> set rows. 0 < starters_count r"
  shows "length (filter (\<lambda>r. starters_count r \<noteq> 0 \<and> sr_gender r = ''M'') rows)
           = length (male_groups rows)"
    and "length (filter (\<lambda>r. starters_count r \<noteq> 0 \<and> sr_gender r \<noteq> ''M'') rows)
           = length (female_groups rows) + length (other_rows rows)"
    and "filter (\<lambda>r. sr_gender r = ''M'') rows = male_groups rows"
    and "filter (\<lambda>r. sr_gender r = ''F'') rows = female_groups rows"
    and "length (filter (\<lambda>r. sr_gender r \<noteq> ''M'') rows)
           = length (filter (\<lambda>r. starters_count r \<noteq> 0 \<and> sr_gender r \<noteq> ''M'') rows)"
  using assms unfolding male_groups_def female_groups_def other_rows_def
  by (induction rows) auto










text \<open>
  C5. For a dictionary (keys pairwise different) and one of its entries \<open>(ag, n)\<close>, the
  qualifiers of category \<open>ag\<close> in the selector's output are \<open>min n M\<close> row indices, where
  \<open>M\<close> is the number of finishers of the category: each is a finisher of that category in
  the roster, none occurs twice, their ranks ascend, and no finisher of the category left
  out has a smaller rank than one taken. An entry with \<open>n \<le> 0\<close> or without finishers
  contributes nothing, and every index of the output comes from an entry with \<open>n > 0\<close>.
\<close>

theorem selector_takes_lowest_ranks:
  assumes "distinct (map fst slot_allocation)"
    and "(ag, n) \<in> set slot_allocation"
  shows "let picked = filter (\<lambda>i. age_group (df ! i) = ag) (determine_qualifiers df slot_allocation)
         in picked = top_finishers df ag n \<and>
            length picked = min (nat n) (nat (finishers_of df ag)) \<and>
            sorted (map (\<lambda>i. age_group_rank (df ! i)) picked) \<and>
            distinct picked \<and>
            (\<forall>i \<in> set picked. i < length df \<and> age_group (df ! i) = ag \<and> finisher (df ! i)) \<and>
            (\<forall>i \<in> set picked. \<forall>j < length df.
               age_group (df ! j) = ag \<and> finisher (df ! j) \<and> j \<notin> set picked \<longrightarrow>
               age_group_rank (df ! i) \<le> age_group_rank (df ! j)) \<and>
            (n \<le> 0 \<or> finishers_of df ag = 0 \<longrightarrow> picked = []) \<and>
            (\<forall>i \<in> set (determine_qualifiers df slot_allocation).
               i < length df \<and> finisher (df ! i) \<and>
               (\<exists>m. (age_group (df ! i), m) \<in> set slot_allocation \<and> 0 < m))"
proof -
  let ?picked = "filter (\<lambda>i. age_group (df ! i) = ag) (determine_qualifiers df slot_allocation)"
  have p: "?picked = top_finishers df ag n" using assms by (rule qualifiers_of_category)
  have l: "length ?picked = min (nat n) (nat (finishers_of df ag))"
    unfolding p by (rule top_finishers_length)
  have s: "sorted (map (\<lambda>i. age_group_rank (df ! i)) ?picked)"
    unfolding p by (rule top_finishers_sorted)
  have d: "distinct ?picked" unfolding p by (rule top_finishers_distinct)
  have m: "\<forall>i \<in> set ?picked. i < length df \<and> age_group (df ! i) = ag \<and> finisher (df ! i)"
    unfolding p using top_finishers_members by blast
  have sm: "\<forall>i \<in> set ?picked. \<forall>j < length df.
               age_group (df ! j) = ag \<and> finisher (df ! j) \<and> j \<notin> set ?picked \<longrightarrow>
               age_group_rank (df ! i) \<le> age_group_rank (df ! j)"
    unfolding p using top_finishers_smallest by blast
  have e: "n \<le> 0 \<or> finishers_of df ag = 0 \<longrightarrow> ?picked = []"
  proof
    assume "n \<le> 0 \<or> finishers_of df ag = 0"
    then have "length ?picked = 0" using l by auto
    then show "?picked = []" by simp
  qed
  have q: "\<forall>i \<in> set (determine_qualifiers df slot_allocation).
               i < length df \<and> finisher (df ! i) \<and>
               (\<exists>m. (age_group (df ! i), m) \<in> set slot_allocation \<and> 0 < m)"
    using qualifiers_members by blast
  show ?thesis unfolding Let_def using p l s d m sm e q by blast
qed

lemma example_entry:
  "distinct (map fst [(''M35-39'', 3::int), (''M40-44'', 0)])"
  "(''M35-39'', 3) \<in> set [(''M35-39'', 3::int), (''M40-44'', 0)]"
  by simp_all

theorem selector_takes_lowest_ranks_witness:
  "distinct (map fst [(''M35-39'', 3::int), (''M40-44'', 0)]) \<and>
   (''M35-39'', 3) \<in> set [(''M35-39'', 3::int), (''M40-44'', 0)] \<and>
   filter (\<lambda>i. age_group (example_roster ! i) = ''M35-39'')
     (determine_qualifiers example_roster [(''M35-39'', 3), (''M40-44'', 0)])
     = top_finishers example_roster ''M35-39'' 3 \<and>
   length (filter (\<lambda>i. age_group (example_roster ! i) = ''M35-39'')
     (determine_qualifiers example_roster [(''M35-39'', 3), (''M40-44'', 0)]))
     = min (nat 3) (nat (finishers_of example_roster ''M35-39''))"
  using selector_takes_lowest_ranks[OF example_entry, of example_roster] example_entry
  unfolding Let_def by blast












lemma two_element_list:
  assumes "distinct xs" "set xs = {a, b}" "a \<noteq> b"
  shows "xs = [a, b] \<or> xs = [b, a]"
proof -
  have "length xs = card (set xs)" using assms(1) by (simp add: distinct_card)
  then have "length xs = 2" using assms(2,3) by simp
  then obtain x y where xy: "xs = [x, y]"
    by (cases xs; cases "tl xs") auto
  then show ?thesis using assms(2,3) by (auto simp: doubleton_eq_iff)
qed

lemma wf_rows_rebuild:
  assumes "wf_rows valid df rows"
  shows "rows = map (\<lambda>ag. slot_row_of ag (starters_of df ag) (finishers_of df ag))
                  (map sr_age_group rows)"
proof -
  have "\<forall>r \<in> set rows.
      r = slot_row_of (sr_age_group r) (starters_of df (sr_age_group r))
            (finishers_of df (sr_age_group r))"
    using assms by (auto simp: wf_rows_def slot_row_of_def)
  then have "map (\<lambda>r. slot_row_of (sr_age_group r) (starters_of df (sr_age_group r))
                   (finishers_of df (sr_age_group r))) rows = rows"
    by (simp add: map_idI)
  then show ?thesis by (simp add: comp_def)
qed

lemma min_guarantee_female_indep:
  "fst (min_guarantee rows (d, m, f)) = fst (min_guarantee rows (d, m, f')) \<and>
   fst (snd (min_guarantee rows (d, m, f))) = fst (snd (min_guarantee rows (d, m, f')))"
  by (induction rows arbitrary: d m f f') auto

lemma apportion_no_groups: "apportion [] d b = Inr (d, b)"
  by (simp add: apportion_def)

lemma allocate_rows_no_female:
  assumes "female_groups rows = []"
  shows "allocate_rows valid rows m w = allocate_rows valid rows m 0"
proof -
  obtain d0 m' f' where a: "min_guarantee rows (init_allocation valid, m, w) = (d0, m', f')"
    by (metis prod_cases3)
  obtain e0 n' g' where b: "min_guarantee rows (init_allocation valid, m, 0) = (e0, n', g')"
    by (metis prod_cases3)
  have "d0 = e0" "m' = n'"
    using min_guarantee_female_indep[of rows "init_allocation valid" m w 0] a b by simp_all
  then have "before_reallocation valid rows m w = before_reallocation valid rows m 0"
    using a b assms
    by (simp add: before_reallocation_def apportion_no_groups split: sum.splits prod.splits)
  then show ?thesis by (simp add: allocate_rows_def)
qed

lemma scenario_runs:
  "allocate_rows [''M35-39'', ''M40-44''] [slot_row_of ''M35-39'' 10 8, slot_row_of ''M40-44'' 5 0] 3 0
     = Inr [(''M35-39'', 3), (''M40-44'', 0)]"
  "allocate_rows [''M35-39'', ''M40-44''] [slot_row_of ''M40-44'' 5 0, slot_row_of ''M35-39'' 10 8] 3 0
     = Inr [(''M35-39'', 3), (''M40-44'', 0)]"
  "allocate_rows [''M40-44'', ''M35-39''] [slot_row_of ''M35-39'' 10 8, slot_row_of ''M40-44'' 5 0] 3 0
     = Inr [(''M40-44'', 0), (''M35-39'', 3)]"
  "allocate_rows [''M40-44'', ''M35-39''] [slot_row_of ''M40-44'' 5 0, slot_row_of ''M35-39'' 10 8] 3 0
     = Inr [(''M40-44'', 0), (''M35-39'', 3)]"
  "female_groups [slot_row_of ''M35-39'' 10 8, slot_row_of ''M40-44'' 5 0] = []"
  "female_groups [slot_row_of ''M40-44'' 5 0, slot_row_of ''M35-39'' 10 8] = []"
  by code_simp+

lemma scenario_select:
  "determine_qualifiers df [(''M35-39'', 3), (''M40-44'', 0)] = top_finishers df ''M35-39'' 3"
  "determine_qualifiers df [(''M40-44'', 0), (''M35-39'', 3)] = top_finishers df ''M35-39'' 3"
  by (simp_all add: determine_qualifiers_def top_finishers_def)

text \<open>
  C2. The example scenario, for every roster with 10 starters and 8 finishers in
  \<open>M35-39\<close> and 5 starters without a finisher in \<open>M40-44\<close>, the ground truth made of
  these two labels (in either order), a male quota of 3, every female quota and every
  emission order of the aggregated frame: the allocator returns the dictionary that maps
  \<open>M35-39\<close> to 3 and \<open>M40-44\<close> to 0, and the selector returns three finishers of
  \<open>M35-39\<close>, in ascending rank, none of the five other finishers ranking lower.
\<close>

theorem example_scenario:
  assumes "distinct valid" and "set valid = {''M35-39'', ''M40-44''}"
    and "frame_of valid data_frame rows"
    and "starters_of data_frame ''M35-39'' = 10" and "finishers_of data_frame ''M35-39'' = 8"
    and "starters_of data_frame ''M40-44'' = 5" and "finishers_of data_frame ''M40-44'' = 0"
  shows "\<exists>d. allocate_rows valid rows 3 womens_slots = Inr d \<and>
           fst ` set d = {''M35-39'', ''M40-44''} \<and>
           map_of d ''M35-39'' = Some 3 \<and> map_of d ''M40-44'' = Some 0 \<and>
           (let q = determine_qualifiers data_frame d
            in q = top_finishers data_frame ''M35-39'' 3 \<and> length q = 3 \<and> distinct q \<and>
               sorted (map (\<lambda>i. age_group_rank (data_frame ! i)) q) \<and>
               (\<forall>i \<in> set q. i < length data_frame \<and> age_group (data_frame ! i) = ''M35-39'' \<and>
                               finisher (data_frame ! i)) \<and>
               (\<forall>i \<in> set q. \<forall>j < length data_frame.
                  age_group (data_frame ! j) = ''M35-39'' \<and> finisher (data_frame ! j) \<and>
                  j \<notin> set q \<longrightarrow>
                  age_group_rank (data_frame ! i) \<le> age_group_rank (data_frame ! j)))"
proof -
  let ?a = "''M35-39''" and ?b = "''M40-44''"
  let ?ra = "slot_row_of ?a 10 8" and ?rb = "slot_row_of ?b 5 0"
  let ?q = "top_finishers data_frame ?a 3"
  have ne: "?a \<noteq> ?b" by simp
  have wf: "wf_rows valid data_frame rows" using assms(3) by (rule frame_of_wf)
  have v: "valid = [?a, ?b] \<or> valid = [?b, ?a]"
    using assms(1,2) ne by (rule two_element_list)
  have "0 < starters_of data_frame ?a" "0 < starters_of data_frame ?b"
    by (simp_all only: assms(4,6) zero_less_numeral)
  then have "?a \<in> age_group ` set data_frame" "?b \<in> age_group ` set data_frame"
    by (simp_all only: starters_of_pos_iff)
  then have "sr_age_group ` set rows = {?a, ?b}" using wf assms(2) by (auto simp: wf_rows_def)
  then have "set (map sr_age_group rows) = {?a, ?b}" by simp
  moreover have "distinct (map sr_age_group rows)" using wf by (simp add: wf_rows_def)
  ultimately have k: "map sr_age_group rows = [?a, ?b] \<or> map sr_age_group rows = [?b, ?a]"
    using ne by (intro two_element_list)
  let ?F = "\<lambda>ag. slot_row_of ag (starters_of data_frame ag) (finishers_of data_frame ag)"
  have rb: "rows = map ?F (map sr_age_group rows)" using wf by (rule wf_rows_rebuild)
  have Fa: "?F ?a = ?ra" and Fb: "?F ?b = ?rb" by (simp_all only: assms(4-7))
  have r: "rows = [?ra, ?rb] \<or> rows = [?rb, ?ra]"
  proof (rule disjE[OF k])
    assume e: "map sr_age_group rows = [?a, ?b]"
    have "map ?F (map sr_age_group rows) = [?F ?a, ?F ?b]" by (simp only: e list.map)
    then have "rows = [?ra, ?rb]" using rb by (simp only: Fa Fb)
    then show ?thesis by (rule disjI1)
  next
    assume e: "map sr_age_group rows = [?b, ?a]"
    have "map ?F (map sr_age_group rows) = [?F ?b, ?F ?a]" by (simp only: e list.map)
    then have "rows = [?rb, ?ra]" using rb by (simp only: Fa Fb)
    then show ?thesis by (rule disjI2)
  qed
  have nf: "female_groups rows = []"
    by (rule disjE[OF r]) (simp_all only: scenario_runs(5,6))
  have run: "allocate_rows valid rows 3 womens_slots = allocate_rows valid rows 3 0"
    using nf by (rule allocate_rows_no_female)
  consider (1) "valid = [?a, ?b]" "rows = [?ra, ?rb]" | (2) "valid = [?a, ?b]" "rows = [?rb, ?ra]"
    | (3) "valid = [?b, ?a]" "rows = [?ra, ?rb]" | (4) "valid = [?b, ?a]" "rows = [?rb, ?ra]"
    using v r by blast
  then have "\<exists>d. allocate_rows valid rows 3 womens_slots = Inr d \<and>
               (d = [(?a, 3), (?b, 0)] \<or> d = [(?b, 0), (?a, 3)])"
  proof cases
    case 1
    have "allocate_rows valid rows 3 womens_slots = Inr [(?a, 3), (?b, 0)]"
      unfolding run unfolding 1 by (rule scenario_runs(1))
    then show ?thesis by blast
  next
    case 2
    have "allocate_rows valid rows 3 womens_slots = Inr [(?a, 3), (?b, 0)]"
      unfolding run unfolding 2 by (rule scenario_runs(2))
    then show ?thesis by blast
  next
    case 3
    have "allocate_rows valid rows 3 womens_slots = Inr [(?b, 0), (?a, 3)]"
      unfolding run unfolding 3 by (rule scenario_runs(3))
    then show ?thesis by blast
  next
    case 4
    have "allocate_rows valid rows 3 womens_slots = Inr [(?b, 0), (?a, 3)]"
      unfolding run unfolding 4 by (rule scenario_runs(4))
    then show ?thesis by blast
  qed
  then obtain d where d: "allocate_rows valid rows 3 womens_slots = Inr d"
    "d = [(?a, 3), (?b, 0)] \<or> d = [(?b, 0), (?a, 3)]"
    by blast
  have q: "determine_qualifiers data_frame d = ?q"
    by (rule disjE[OF d(2)]) (simp_all only: scenario_select)
  have 1: "fst ` set d = {?a, ?b}" using d(2) by auto
  have 2: "map_of d ?a = Some 3" "map_of d ?b = Some 0" using d(2) by auto
  let ?dq = "determine_qualifiers data_frame d"
  have 3: "length ?dq = 3"
    unfolding q using top_finishers_length[of data_frame ?a 3] assms(5) by simp
  have 4: "distinct ?dq" unfolding q by (rule top_finishers_distinct)
  have 5: "sorted (map (\<lambda>i. age_group_rank (data_frame ! i)) ?dq)"
    unfolding q by (rule top_finishers_sorted)
  have 6: "\<forall>i \<in> set ?dq. i < length data_frame \<and> age_group (data_frame ! i) = ?a \<and>
                               finisher (data_frame ! i)"
    unfolding q using top_finishers_members by blast
  have 7: "\<forall>i \<in> set ?dq. \<forall>j < length data_frame.
                  age_group (data_frame ! j) = ?a \<and> finisher (data_frame ! j) \<and>
                  j \<notin> set ?dq \<longrightarrow>
                  age_group_rank (data_frame ! i) \<le> age_group_rank (data_frame ! j)"
    unfolding q using top_finishers_smallest by blast
  show ?thesis
    unfolding Let_def
    by (intro exI[of _ d] conjI) (fact d(1) 1 2 q 3 4 5 6 7)+
qed

lemma example_hyps:
  "distinct example_valid" "set example_valid = {''M35-39'', ''M40-44''}"
  by (simp_all add: example_valid_def)

theorem example_scenario_witness:
  "distinct example_valid \<and> set example_valid = {''M35-39'', ''M40-44''} \<and>
   frame_of example_valid example_roster [slot_row_of ''M35-39'' 10 8, slot_row_of ''M40-44'' 5 0] \<and>
   starters_of example_roster ''M35-39'' = 10 \<and> finishers_of example_roster ''M35-39'' = 8 \<and>
   starters_of example_roster ''M40-44'' = 5 \<and> finishers_of example_roster ''M40-44'' = 0 \<and>
   allocate_rows example_valid [slot_row_of ''M35-39'' 10 8, slot_row_of ''M40-44'' 5 0] 3 0
     = Inr [(''M35-39'', 3), (''M40-44'', 0)] \<and>
   determine_qualifiers example_roster [(''M35-39'', 3), (''M40-44'', 0)]
     = top_finishers example_roster ''M35-39'' 3 \<and>
   length (determine_qualifiers example_roster [(''M35-39'', 3), (''M40-44'', 0)]) = 3 \<and>
   determine_qualifiers example_roster [(''M35-39'', 3), (''M40-44'', 0)] = [7, 6, 5]"
proof -
  note t = example_scenario[OF example_hyps example_frame_of example_counts(3,4,1,2), of 0,
      unfolded Let_def]
  from t obtain d where "allocate_rows example_valid [slot_row_of ''M35-39'' 10 8, slot_row_of ''M40-44'' 5 0] 3 0 = Inr d"
    "determine_qualifiers example_roster d = top_finishers example_roster ''M35-39'' 3"
    "length (determine_qualifiers example_roster d) = 3"
    by (elim exE conjE) (rule that; assumption)
  then have "determine_qualifiers example_roster [(''M35-39'', 3), (''M40-44'', 0)]
       = top_finishers example_roster ''M35-39'' 3"
    "length (determine_qualifiers example_roster [(''M35-39'', 3), (''M40-44'', 0)]) = 3"
    using example_allocation by simp_all
  then show ?thesis
    using example_hyps example_frame_of example_counts example_allocation example_qualifiers
    by (intro conjI)
qed

lemma apportion_skip: "b \<le> 0 \<Longrightarrow> apportion gs d b = Inr (d, b)"
  by (simp add: apportion_def)

lemma before_reallocation_negative:
  assumes dist: "distinct (map sr_age_group rows)"
    and run: "before_reallocation valid rows m w = Inr d2"
  shows "m < 0 \<longrightarrow> (\<forall>g \<in> set (male_groups rows). slots d2 (sr_age_group g) = 1)"
    and "w < 0 \<longrightarrow> (\<forall>g \<in> set (female_groups rows). slots d2 (sr_age_group g) = 1)"
proof -
  let ?K = "started_keys rows"
  let ?mg = "male_groups rows"
  let ?fg = "female_groups rows"
  let ?nM = "int (length (filter (\<lambda>r. starters_count r \<noteq> 0 \<and> sr_gender r = ''M'') rows))"
  let ?nO = "int (length (filter (\<lambda>r. starters_count r \<noteq> 0 \<and> sr_gender r \<noteq> ''M'') rows))"
  from min_guarantee_ok[of rows "init_allocation valid" m w] obtain d0 where d0:
    "min_guarantee rows (init_allocation valid, m, w) = (d0, m - ?nM, w - ?nO)"
    "fst ` set d0 = fst ` set (init_allocation valid) \<union> ?K"
    "\<forall>k. slots d0 k = (if k \<in> ?K then 1 else slots (init_allocation valid) k)"
    unfolding started_keys_def by blast
  have k0: "fst ` set d0 = set valid \<union> ?K" using d0(2) by (simp add: init_allocation_keys)
  have "sr_age_group ` set ?mg \<subseteq> fst ` set d0" using groups_sub_started(1) k0 by blast
  from apportion_ok[OF this groups_pos(1), of "m - ?nM"] obtain d1 r1 where d1:
    "apportion ?mg d0 (m - ?nM) = Inr (d1, r1)" "map fst d1 = map fst d0"
    "\<forall>k. k \<notin> sr_age_group ` set ?mg \<longrightarrow> slots d1 k = slots d0 k"
    by blast
  have k1: "fst ` set d1 = fst ` set d0" using d1(2) by (rule keys_eq_set)
  have "sr_age_group ` set ?fg \<subseteq> fst ` set d1" using groups_sub_started(2) k0 k1 by blast
  from apportion_ok[OF this groups_pos(2), of "w - ?nO"] obtain d2' r2 where d2:
    "apportion ?fg d1 (w - ?nO) = Inr (d2', r2)"
    "\<forall>k. k \<notin> sr_age_group ` set ?fg \<longrightarrow> slots d2' k = slots d1 k"
    by blast
  have "before_reallocation valid rows m w = Inr d2'"
    using d0(1) d1(1) d2(1) by (simp add: before_reallocation_def)
  then have eq: "d2' = d2" using run by simp
  have one_m: "\<forall>g \<in> set ?mg. slots d0 (sr_age_group g) = 1"
    using d0(3) groups_sub_started(1) by auto
  have one_f: "\<forall>g \<in> set ?fg. slots d0 (sr_age_group g) = 1"
    using d0(3) groups_sub_started(2) by auto
  show "m < 0 \<longrightarrow> (\<forall>g \<in> set ?mg. slots d2 (sr_age_group g) = 1)"
  proof (intro impI ballI)
    fix g assume m: "m < 0" and g: "g \<in> set ?mg"
    have "apportion ?mg d0 (m - ?nM) = Inr (d0, m - ?nM)" using m by (intro apportion_skip) simp
    then have "d1 = d0" using d1(1) by simp
    moreover have "sr_age_group g \<notin> sr_age_group ` set ?fg"
      using groups_disjoint[OF dist, of g] g by (metis imageE)
    ultimately show "slots d2 (sr_age_group g) = 1" using d2(2) eq one_m g by simp
  qed
  show "w < 0 \<longrightarrow> (\<forall>g \<in> set ?fg. slots d2 (sr_age_group g) = 1)"
  proof (intro impI ballI)
    fix g assume w: "w < 0" and g: "g \<in> set ?fg"
    have "apportion ?fg d1 (w - ?nO) = Inr (d1, w - ?nO)" using w by (intro apportion_skip) simp
    then have "d2 = d1" using d2(1) eq by simp
    moreover have "sr_age_group g \<notin> sr_age_group ` set ?mg"
      using groups_disjoint[OF dist, of _ g] g by (metis imageE)
    ultimately show "slots d2 (sr_age_group g) = 1" using d1(3) one_f g by simp
  qed
qed

lemma empty_ground_truth:
  "calculate_slot_allocation [] data_frame mens_slots womens_slots = Inr []"
proof -
  have "slot_df [] data_frame = []"
    by (simp add: slot_df_def group_by_count_def left_join_def first_seen_def)
  then show ?thesis
    by (simp add: calculate_slot_allocation_def allocate_rows_def before_reallocation_def
        init_allocation_def male_groups_def female_groups_def apportion_def fill_missing_def)
qed

text \<open>
  C8, as amended. The allocator validates neither the ground truth nor the quotas. For an
  empty ground-truth list it returns the empty dictionary. For every other input it
  returns a dictionary as well; under a negative male (female) quota the apportionment of
  that gender is skipped, so that before reallocation every ground-truth category of the
  gender with a starter holds exactly its guaranteed slot.
\<close>

theorem no_input_validation:
  assumes "frame_of valid data_frame rows"
  shows "calculate_slot_allocation [] data_frame mens_slots womens_slots = Inr [] \<and>
     (\<exists>d2 d. before_reallocation valid rows mens_slots womens_slots = Inr d2 \<and>
        allocate_rows valid rows mens_slots womens_slots = Inr d \<and>
        (mens_slots < 0 \<longrightarrow>
           (\<forall>ag \<in> set valid. gender_of ag = ''M'' \<and> 0 < starters_of data_frame ag \<longrightarrow>
              map_of d2 ag = Some 1)) \<and>
        (womens_slots < 0 \<longrightarrow>
           (\<forall>ag \<in> set valid. gender_of ag = ''F'' \<and> 0 < starters_of data_frame ag \<longrightarrow>
              map_of d2 ag = Some 1)))"
proof -
  have wf: "wf_rows valid data_frame rows" using assms by (rule frame_of_wf)
  have dist: "distinct (map sr_age_group rows)" using wf by (simp add: wf_rows_def)
  have pos: "\<forall>r \<in> set rows. 0 < starters_count r" using wf_rows_starters_pos[OF wf] by blast
  from allocate_rows_ok[of valid rows mens_slots womens_slots] obtain d2 d where d:
    "before_reallocation valid rows mens_slots womens_slots = Inr d2"
    "allocate_rows valid rows mens_slots womens_slots = Inr d"
    by blast
  from before_reallocation_ok[of valid rows mens_slots womens_slots] d(1)
  have keys: "fst ` set d2 = set valid \<union> started_keys rows" by auto
  note n = before_reallocation_negative[OF dist d(1)]
  have part: "map_of d2 ag = Some 1"
    if g: "gs = filter (\<lambda>r. sr_gender r = G) rows" "\<forall>g \<in> set gs. slots d2 (sr_age_group g) = 1"
      and ag: "ag \<in> set valid" "gender_of ag = G" "0 < starters_of data_frame ag" for gs G ag
  proof -
    have "ag \<in> sr_age_group ` set rows"
      using wf ag(1,3) by (simp add: wf_rows_def starters_of_pos_iff)
    then obtain r where r: "r \<in> set rows" "sr_age_group r = ag" by auto
    then have "sr_gender r = G" using wf ag(2) by (auto simp: wf_rows_def)
    then have "r \<in> set gs" using r(1) g(1) by simp
    then have "slots d2 ag = 1" using g(2) r(2) by auto
    moreover have "map_of d2 ag = Some (slots d2 ag)" using keys ag(1) by (intro map_of_slots) simp
    ultimately show ?thesis by simp
  qed
  have m: "mens_slots < 0 \<longrightarrow>
           (\<forall>ag \<in> set valid. gender_of ag = ''M'' \<and> 0 < starters_of data_frame ag \<longrightarrow>
              map_of d2 ag = Some 1)"
    using part[OF started_counts(3)[OF pos, symmetric]] n(1) by blast
  have f: "womens_slots < 0 \<longrightarrow>
           (\<forall>ag \<in> set valid. gender_of ag = ''F'' \<and> 0 < starters_of data_frame ag \<longrightarrow>
              map_of d2 ag = Some 1)"
    using part[OF started_counts(4)[OF pos, symmetric]] n(2) by blast
  show ?thesis
    by (intro conjI exI[of _ d2] exI[of _ d]) (fact empty_ground_truth d m f)+
qed

lemma example_negative:
  "before_reallocation example_valid [slot_row_of ''M35-39'' 10 8, slot_row_of ''M40-44'' 5 0] (- 1) (- 2)
     = Inr [(''M35-39'', 1), (''M40-44'', 1)]"
  by code_simp

theorem no_input_validation_witness:
  "frame_of example_valid example_roster [slot_row_of ''M35-39'' 10 8, slot_row_of ''M40-44'' 5 0] \<and>
   calculate_slot_allocation [] example_roster (- 1) (- 2) = Inr [] \<and>
   before_reallocation example_valid [slot_row_of ''M35-39'' 10 8, slot_row_of ''M40-44'' 5 0] (- 1) (- 2)
     = Inr [(''M35-39'', 1), (''M40-44'', 1)] \<and>
   (- 1 :: int) < 0 \<and> ''M35-39'' \<in> set example_valid \<and> gender_of ''M35-39'' = ''M'' \<and>
   0 < starters_of example_roster ''M35-39'' \<and>
   map_of [(''M35-39'', 1::int), (''M40-44'', 1)] ''M35-39'' = Some 1"
proof -
  have v: "''M35-39'' \<in> set example_valid" "gender_of ''M35-39'' = ''M''"
    "0 < starters_of example_roster ''M35-39''"
    by (simp_all add: example_valid_def gender_of_def example_counts)
  from no_input_validation[OF example_frame_of, of "- 1" "- 2"] obtain d2 where
    e: "calculate_slot_allocation [] example_roster (- 1) (- 2) = Inr []"
    and r: "before_reallocation example_valid
         [slot_row_of ''M35-39'' 10 8, slot_row_of ''M40-44'' 5 0] (- 1) (- 2) = Inr d2"
    and m: "(- 1 :: int) < 0 \<longrightarrow>
           (\<forall>ag \<in> set example_valid. gender_of ag = ''M'' \<and> 0 < starters_of example_roster ag \<longrightarrow>
              map_of d2 ag = Some 1)"
    by (elim exE conjE) (rule that; assumption)
  have "d2 = [(''M35-39'', 1), (''M40-44'', 1)]" using r example_negative by simp
  then have "map_of [(''M35-39'', 1::int), (''M40-44'', 1)] ''M35-39'' = Some 1"
    using m v by simp
  then show ?thesis using example_frame_of e example_negative v by (intro conjI) simp_all
qed

text \<open>
  The claim C8 as stated fails: an empty ground-truth list gives the empty dictionary, and
  the quotas \<open>-1\<close> and \<open>-2\<close> give a dictionary with two slots for \<open>M35-39\<close>.
\<close>

theorem fail_fast_counterexample:
  "calculate_slot_allocation [] example_roster 3 0 = Inr [] \<and>
   calculate_slot_allocation example_valid example_roster (- 1) (- 2)
     = Inr [(''M35-39'', 2), (''M40-44'', 0)]"
  by code_simp








end
